theory Spec2Isabelle
  imports Complex_Main "HOL-Library.Word"
begin

section \<open>Strings and path segments\<close>

text \<open>
  An ECMAScript string is a sequence of 16-bit code units. \<open>js\<close> turns an Isabelle
  string literal (characters below 256) into such a sequence, so that the literals of
  the source can be written as they stand there.
\<close>

type_synonym jschar = "16 word"
type_synonym jsstring = "jschar list"

definition js :: "string \<Rightarrow> jsstring" where
  "js s = map of_char s"

definition dquote :: jschar where
  "dquote = 0x22"

text \<open>
  The decimal digits of a natural number, most significant first, and the decimal text of
  an integer, with a minus sign when it is negative: what ECMAScript's Number::toString
  prints for a safe integer (one of absolute value below \<open>2 ^ 53\<close>), and so for every array
  index. It is used for safe integers only (see \<open>Number_toString\<close>).
\<close>

definition digit_char :: "nat \<Rightarrow> jschar" where
  "digit_char d = of_nat (48 + d)"

fun nat_digits :: "nat \<Rightarrow> jsstring" where
  "nat_digits n = (if n < 10 then [digit_char n] else nat_digits (n div 10) @ [digit_char (n mod 10)])"

declare nat_digits.simps [simp del]

definition int_toString :: "int \<Rightarrow> jsstring" where
  "int_toString n = (if n < 0 then js ''-'' @ nat_digits (nat (- n)) else nat_digits (nat n))"

subsection \<open>Numbers\<close>

text \<open>
  A Number is NaN, an infinity or a finite value. \<open>JFin r\<close> stands for the binary64 value
  nearest to the rational \<open>r\<close>; the rounding itself is not modelled (nothing below depends
  on it), the overflow to an infinity is (see \<open>to_Number\<close>). The two zeros are not told
  apart: they print and compare alike.
\<close>

datatype jsnum = JNaN | JPosInf | JNegInf | JFin rat

definition is_safe_integer :: "rat \<Rightarrow> bool" where
  "is_safe_integer r = (of_int \<lfloor>r\<rfloor> = r \<and> \<bar>r\<bar> < 2 ^ 53)"

text \<open>
  Number::toString. A safe integer prints as its decimal digits. How the platform prints
  any other finite value (the shortest digits that read back as the same binary64 value)
  is not modelled: it is the parameter \<open>other\<close>.
\<close>

definition Number_toString :: "(rat \<Rightarrow> jsstring) \<Rightarrow> jsnum \<Rightarrow> jsstring" where
  "Number_toString other x =
     (case x of
        JNaN \<Rightarrow> js ''NaN''
      | JPosInf \<Rightarrow> js ''Infinity''
      | JNegInf \<Rightarrow> js ''-Infinity''
      | JFin r \<Rightarrow> if is_safe_integer r then int_toString \<lfloor>r\<rfloor> else other r)"

subsection \<open>Path segments\<close>

text \<open>
  jsonc-parser's \<open>Segment = string | number\<close> and \<open>JSONPath = Segment[]\<close>. A numeric
  segment is an integer-valued Number (an array position); the source still tests
  \<open>index >= 0\<close>, so the model keeps the sign. Where a numeric segment is turned into
  text (by \<open>join\<close>, or as a property key) the text is Number::toString of it: the decimal
  digits for a safe integer, the platform's text beyond (the exponent form from
  \<open>10 ^ 21\<close> on), which is the parameter \<open>other\<close>.
\<close>

datatype segment = Idx int | Key jsstring

type_synonym jsonpath = "segment list"

subsection \<open>jsonPathToString (index.tsx, lines 27-31)\<close>

text \<open>
  \<open>path.map(seg => (typeof seg === "number" ? seg : `"${seg}"`))\<close>: a number stays a
  number and is turned into text by \<open>join\<close>; a string is wrapped in double quotes,
  nothing inside it is escaped.
\<close>

fun seg_text :: "(rat \<Rightarrow> jsstring) \<Rightarrow> segment \<Rightarrow> jsstring" where
  "seg_text other (Idx n) = Number_toString other (JFin (of_int n))"
| "seg_text other (Key s) = dquote # s @ [dquote]"

text \<open>\<open>Array.prototype.join\<close> on an array of texts.\<close>

fun join :: "jsstring \<Rightarrow> jsstring list \<Rightarrow> jsstring" where
  "join sep [] = []"
| "join sep [x] = x"
| "join sep (x # y # ys) = x @ sep @ join sep (y # ys)"

text \<open>The parameter is optional in the source (\<open>path?\<close>): \<open>None\<close> is the absent path.\<close>

definition jsonPathToString :: "(rat \<Rightarrow> jsstring) \<Rightarrow> jsonpath option \<Rightarrow> jsstring" where
  "jsonPathToString other path =
     (case path of
        None \<Rightarrow> js ''$''
      | Some p \<Rightarrow>
          if length p = 0 then js ''$''
          else js ''$['' @ join (js '']['') (map (seg_text other) p) @ js '']'')"

text \<open>
  The specification's reading of the output: one bracketed group per segment, an integer
  as its bare digits, a string between double quotes.
\<close>

fun spec_group :: "segment \<Rightarrow> jsstring" where
  "spec_group (Idx n) = js ''['' @ nat_digits (nat n) @ js '']''"
| "spec_group (Key s) = js ''['' @ [dquote] @ s @ [dquote] @ js '']''"

text \<open>An array index in the sense of ECMAScript: an integer from 0 to \<open>2 ^ 32 - 2\<close>.\<close>

definition is_array_index :: "int \<Rightarrow> bool" where
  "is_array_index n = (0 \<le> n \<and> n < 2 ^ 32 - 1)"

fun index_segment_ok :: "segment \<Rightarrow> bool" where
  "index_segment_ok (Idx n) = is_array_index n"
| "index_segment_ok (Key s) = True"

section \<open>Rows and plain objects\<close>

text \<open>
  Modelled from the spec: the row type \<open>NodeData["text"]\<close> is declared in
  \<open>types/graph\<close>, which is not among the sources. The specification's DisplayRow has
  an optional string key, a primitive value (string, number, boolean or null) and a type
  out of six.
\<close>

datatype node_type = TArray | TObject | TString | TNumber | TBoolean | TNull

datatype primitive = PNull | PBool bool | PNumber jsnum | PString jsstring

record node_row =
  row_key :: "jsstring option"
  row_value :: primitive
  row_type :: node_type

text \<open>The template literal \<open>`${v}`\<close> on a primitive: ToString.\<close>

fun ToString :: "(rat \<Rightarrow> jsstring) \<Rightarrow> primitive \<Rightarrow> jsstring" where
  "ToString other PNull = js ''null''"
| "ToString other (PBool b) = (if b then js ''true'' else js ''false'')"
| "ToString other (PNumber x) = Number_toString other x"
| "ToString other (PString s) = s"

subsection \<open>Own properties of an ordinary object\<close>

text \<open>
  An object is the list of its own enumerable string-keyed properties in the order
  ECMAScript enumerates them (OrdinaryOwnPropertyKeys): first the keys that are array
  indices, by ascending value, then the other keys in the order of their creation.
  A key is an array index when it is the decimal text, without a leading zero, of an
  integer from 0 to \<open>2 ^ 32 - 2\<close>.
\<close>

definition is_digit :: "jschar \<Rightarrow> bool" where
  "is_digit c = (0x30 \<le> c \<and> c \<le> 0x39)"

definition digit_val :: "jschar \<Rightarrow> nat" where
  "digit_val c = unat c - 48"

definition read_nat :: "jsstring \<Rightarrow> nat" where
  "read_nat s = foldl (\<lambda>a c. 10 * a + digit_val c) 0 s"

definition array_index_of_key :: "jsstring \<Rightarrow> nat option" where
  "array_index_of_key s =
     (if s \<noteq> [] \<and> list_all is_digit s \<and> (hd s \<noteq> 0x30 \<or> length s = 1)
         \<and> read_nat s < 2 ^ 32 - 1
      then Some (read_nat s) else None)"

type_synonym 'v props = "(jsstring \<times> 'v) list"

definition has_own :: "'v props \<Rightarrow> jsstring \<Rightarrow> bool" where
  "has_own es k = (map_of es k \<noteq> None)"

fun obj_replace :: "jsstring \<Rightarrow> 'v \<Rightarrow> 'v props \<Rightarrow> 'v props" where
  "obj_replace k v [] = []"
| "obj_replace k v ((k', v') # es) =
     (if k' = k then (k, v) # es else (k', v') # obj_replace k v es)"

fun obj_insert_index :: "nat \<Rightarrow> jsstring \<Rightarrow> 'v \<Rightarrow> 'v props \<Rightarrow> 'v props" where
  "obj_insert_index n k v [] = [(k, v)]"
| "obj_insert_index n k v ((k', v') # es) =
     (case array_index_of_key k' of
        Some m \<Rightarrow> if m < n then (k', v') # obj_insert_index n k v es
                  else (k, v) # (k', v') # es
      | None \<Rightarrow> (k, v) # (k', v') # es)"

text \<open>
  CreateDataProperty on an ordinary object: an existing property keeps its place and
  takes the new value, a new one is created at its place in the enumeration order.
\<close>

definition obj_define :: "jsstring \<Rightarrow> 'v \<Rightarrow> 'v props \<Rightarrow> 'v props" where
  "obj_define k v es =
     (if has_own es k then obj_replace k v es
      else case array_index_of_key k of
             Some n \<Rightarrow> obj_insert_index n k v es
           | None \<Rightarrow> es @ [(k, v)])"

subsection \<open>JSON.stringify(obj, null, 2) on an object of primitives\<close>

definition backslash :: jschar where
  "backslash = 0x5C"

definition hex_digit :: "nat \<Rightarrow> jschar" where
  "hex_digit d = (if d < 10 then of_nat (48 + d) else of_nat (87 + d))"

definition UnicodeEscape :: "jschar \<Rightarrow> jsstring" where
  "UnicodeEscape c =
     backslash # js ''u'' @ [hex_digit (unat c div 4096 mod 16), hex_digit (unat c div 256 mod 16),
                  hex_digit (unat c div 16 mod 16), hex_digit (unat c mod 16)]"

definition is_high_surrogate :: "jschar \<Rightarrow> bool" where
  "is_high_surrogate c = (0xD800 \<le> c \<and> c \<le> 0xDBFF)"

definition is_low_surrogate :: "jschar \<Rightarrow> bool" where
  "is_low_surrogate c = (0xDC00 \<le> c \<and> c \<le> 0xDFFF)"

text \<open>One code unit that is not part of a surrogate pair, as QuoteJSONString writes it.\<close>

definition quote_unit :: "jschar \<Rightarrow> jsstring" where
  "quote_unit c =
     (if c = 0x08 then backslash # js ''b''
      else if c = 0x09 then backslash # js ''t''
      else if c = 0x0A then backslash # js ''n''
      else if c = 0x0C then backslash # js ''f''
      else if c = 0x0D then backslash # js ''r''
      else if c = 0x22 then [backslash, dquote]
      else if c = 0x5C then [backslash, backslash]
      else if c < 0x20 \<or> is_high_surrogate c \<or> is_low_surrogate c then UnicodeEscape c
      else [c])"

fun quote_units :: "jsstring \<Rightarrow> jsstring" where
  "quote_units [] = []"
| "quote_units [c] = quote_unit c"
| "quote_units (c # d # cs) =
     (if is_high_surrogate c \<and> is_low_surrogate d then c # d # quote_units cs
      else quote_unit c @ quote_units (d # cs))"

definition QuoteJSONString :: "jsstring \<Rightarrow> jsstring" where
  "QuoteJSONString s = [dquote] @ quote_units s @ [dquote]"

text \<open>SerializeJSONProperty on a primitive: a Number that is not finite is written null.\<close>

fun json_primitive :: "(rat \<Rightarrow> jsstring) \<Rightarrow> primitive \<Rightarrow> jsstring" where
  "json_primitive other PNull = js ''null''"
| "json_primitive other (PBool b) = (if b then js ''true'' else js ''false'')"
| "json_primitive other (PNumber x) =
     (case x of JFin r \<Rightarrow> Number_toString other x | _ \<Rightarrow> js ''null'')"
| "json_primitive other (PString s) = QuoteJSONString s"

definition newline :: jschar where
  "newline = 0x0A"

text \<open>
  SerializeJSONObject with the gap of two spaces at the outermost level: no property gives
  \<open>{}\<close>; otherwise an opening brace, a line break, the members joined by a comma and a
  line break, each indented by the gap and written key, colon, space, value, then a line
  break and the closing brace.
\<close>

definition json_member :: "(rat \<Rightarrow> jsstring) \<Rightarrow> jsstring \<times> primitive \<Rightarrow> jsstring" where
  "json_member other kv = QuoteJSONString (fst kv) @ js '': '' @ json_primitive other (snd kv)"

definition JSON_stringify_2 :: "(rat \<Rightarrow> jsstring) \<Rightarrow> primitive props \<Rightarrow> jsstring" where
  "JSON_stringify_2 other es =
     (if es = [] then js ''{}''
      else js ''{'' @ [newline] @ js ''  ''
           @ join (js '','' @ [newline] @ js ''  '') (map (json_member other) es)
           @ [newline] @ js ''}'')"

subsection \<open>normalizeNodeData (index.tsx, lines 13-24)\<close>

text \<open>
  \<open>const obj = {}\<close> is a fresh ordinary object: its own properties, and whether its
  prototype is still Object.prototype. The assignment \<open>obj[k] = v\<close> of a primitive creates
  or overwrites an own property, with one exception of the language: while the object
  inherits the \<open>__proto__\<close> accessor and has no own property of that name, assigning to
  \<open>__proto__\<close> runs the accessor, which creates no property (null becomes the prototype,
  any other primitive is ignored).
\<close>

record plain_obj =
  own :: "primitive props"
  std_proto :: bool

definition empty_obj :: plain_obj where
  "empty_obj = \<lparr> own = [], std_proto = True \<rparr>"

definition obj_assign :: "plain_obj \<Rightarrow> jsstring \<Rightarrow> primitive \<Rightarrow> plain_obj" where
  "obj_assign obj k v =
     (if k = js ''__proto__'' \<and> std_proto obj \<and> \<not> has_own (own obj) k
      then (if v = PNull then obj \<lparr> std_proto := False \<rparr> else obj)
      else obj \<lparr> own := obj_define k v (own obj) \<rparr>)"

text \<open>\<open>!row.key\<close>: a key that is null (absent) or the empty string is falsy.\<close>

definition key_truthy :: "jsstring option \<Rightarrow> bool" where
  "key_truthy k = (case k of None \<Rightarrow> False | Some s \<Rightarrow> s \<noteq> [])"

text \<open>The body of the \<open>forEach\<close> callback.\<close>

definition forEach_row :: "plain_obj \<Rightarrow> node_row \<Rightarrow> plain_obj" where
  "forEach_row obj row =
     (if row_type row \<noteq> TArray \<and> row_type row \<noteq> TObject then
        (if key_truthy (row_key row) then obj_assign obj (the (row_key row)) (row_value row)
         else obj)
      else obj)"

text \<open>
  The row array is never absent by its type, so the guard \<open>!nodeRows\<close> is left out;
  \<open>rows ! 0\<close> is read only when the length is 1.
\<close>

definition normalizeNodeData :: "(rat \<Rightarrow> jsstring) \<Rightarrow> node_row list \<Rightarrow> jsstring" where
  "normalizeNodeData other nodeRows =
     (if length nodeRows = 0 then js ''{}''
      else if length nodeRows = 1 \<and> \<not> key_truthy (row_key (nodeRows ! 0))
        then ToString other (row_value (nodeRows ! 0))
      else JSON_stringify_2 other (own (foldl forEach_row empty_obj nodeRows)))"

text \<open>
  What the rows stand for in the statements below: a row lacks a key when the key is absent
  or empty; a kept row is one the callback assigns.
\<close>

definition lacks_key :: "node_row \<Rightarrow> bool" where
  "lacks_key r = (row_key r = None \<or> row_key r = Some [])"

definition row_kept :: "node_row \<Rightarrow> bool" where
  "row_kept r = (row_type r \<noteq> TArray \<and> row_type r \<noteq> TObject \<and> \<not> lacks_key r)"

definition assign_row :: "plain_obj \<Rightarrow> node_row \<Rightarrow> plain_obj" where
  "assign_row obj r = obj_assign obj (the (row_key r)) (row_value r)"

definition row_entry :: "node_row \<Rightarrow> jsstring \<times> primitive" where
  "row_entry r = (the (row_key r), row_value r)"

text \<open>
  The mapping as the specification words it, from a list of entries in row order: the keys
  in the order of their first rows, each with the value of its last row.
\<close>

definition first_keys :: "'v props \<Rightarrow> jsstring list" where
  "first_keys ents = rev (remdups (rev (map fst ents)))"

definition last_value :: "'v props \<Rightarrow> jsstring \<Rightarrow> 'v" where
  "last_value ents k = the (map_of (rev ents) k)"

definition claimed_mapping :: "'v props \<Rightarrow> 'v props" where
  "claimed_mapping ents = map (\<lambda>k. (k, last_value ents k)) (first_keys ents)"

text \<open>
  \<open>claimed_normalize\<close> is the claim read by its words: only an absent key counts as no
  key, every other row that is not of type array or object is entered, and the mapping is
  in row order.
\<close>

definition claimed_normalize :: "(rat \<Rightarrow> jsstring) \<Rightarrow> node_row list \<Rightarrow> jsstring" where
  "claimed_normalize other rows =
     (if rows = [] then js ''{}''
      else if length rows = 1 \<and> row_key (rows ! 0) = None
        then ToString other (row_value (rows ! 0))
      else JSON_stringify_2 other
             (claimed_mapping (map row_entry
                (filter (\<lambda>r. row_type r \<noteq> TArray \<and> row_type r \<noteq> TObject \<and> row_key r \<noteq> None)
                   rows))))"

text \<open>
  The mapping the source builds, in the words of the amended claim. The entries are those
  of the kept rows in row order, without the rows whose key is \<open>__proto__\<close> as long as the
  mapping has the inherited accessor of that name (a row with that key and the value null
  takes the accessor away, and is itself not entered). The keys that are array indices
  come first, by ascending index, then the other keys in the order of their first rows;
  each key has the value of its last entry.
\<close>

fun entered :: "bool \<Rightarrow> node_row list \<Rightarrow> primitive props" where
  "entered accessor [] = []"
| "entered accessor (r # rs) =
     (if \<not> row_kept r then entered accessor rs
      else if accessor \<and> row_key r = Some (js ''__proto__'')
        then entered (row_value r \<noteq> PNull) rs
      else row_entry r # entered accessor rs)"

definition is_index_key :: "jsstring \<Rightarrow> bool" where
  "is_index_key k = (array_index_of_key k \<noteq> None)"

definition index_of :: "jsstring \<Rightarrow> nat" where
  "index_of k = (case array_index_of_key k of Some n \<Rightarrow> n | None \<Rightarrow> 0)"

definition key_order :: "jsstring list \<Rightarrow> jsstring list" where
  "key_order ks =
     sort_key index_of (filter is_index_key ks) @ filter (\<lambda>k. \<not> is_index_key k) ks"

definition ordered_mapping :: "'v props \<Rightarrow> 'v props" where
  "ordered_mapping ents = map (\<lambda>k. (k, last_value ents k)) (key_order (first_keys ents))"

text \<open>Replacing an empty key by an absent one.\<close>

definition blank_key :: "node_row \<Rightarrow> node_row" where
  "blank_key r = (if row_key r = Some [] then r \<lparr> row_key := None \<rparr> else r)"

text \<open>Rows used as examples.\<close>

definition hello_row :: node_row where
  "hello_row = \<lparr> row_key = None, row_value = PString (js ''hello''), row_type = TString \<rparr>"

definition name_row :: node_row where
  "name_row = \<lparr> row_key = Some (js ''name''), row_value = PString (js ''Ada''), row_type = TString \<rparr>"

definition tags_row :: node_row where
  "tags_row = \<lparr> row_key = Some (js ''tags''), row_value = PString (js ''[2 items]''), row_type = TArray \<rparr>"

definition age_row :: node_row where
  "age_row = \<lparr> row_key = Some (js ''age''), row_value = PNumber (JFin 36), row_type = TNumber \<rparr>"

definition empty_key_row :: node_row where
  "empty_key_row = \<lparr> row_key = Some [], row_value = PString (js ''hello''), row_type = TString \<rparr>"

definition b_row :: node_row where
  "b_row = \<lparr> row_key = Some (js ''b''), row_value = PString (js ''x''), row_type = TString \<rparr>"

definition ten_row :: node_row where
  "ten_row = \<lparr> row_key = Some (js ''10''), row_value = PString (js ''y''), row_type = TString \<rparr>"

definition two_row :: node_row where
  "two_row = \<lparr> row_key = Some (js ''2''), row_value = PString (js ''z''), row_type = TString \<rparr>"

definition proto_row :: node_row where
  "proto_row = \<lparr> row_key = Some (js ''__proto__''), row_value = PString (js ''p''), row_type = TString \<rparr>"

section \<open>Text to Number\<close>

text \<open>
  The mathematical value of a literal becomes a Number: from \<open>2 ^ 1024 - 2 ^ 970\<close> on
  (half way between the largest binary64 value and \<open>2 ^ 1024\<close>) it rounds to an infinity.
\<close>

definition to_Number :: "rat \<Rightarrow> jsnum" where
  "to_Number r =
     (if 2 ^ 1024 - 2 ^ 970 \<le> r then JPosInf
      else if r \<le> - (2 ^ 1024 - 2 ^ 970) then JNegInf
      else JFin r)"

fun negate :: "jsnum \<Rightarrow> jsnum" where
  "negate JNaN = JNaN"
| "negate JPosInf = JNegInf"
| "negate JNegInf = JPosInf"
| "negate (JFin r) = JFin (- r)"

definition isNaN :: "jsnum \<Rightarrow> bool" where
  "isNaN x = (x = JNaN)"

text \<open>
  WhiteSpace and LineTerminator of ECMAScript, all of them single code units: tab, line
  feed, vertical tab, form feed, carriage return, space, no-break space, the Unicode
  space separators, the line and paragraph separators and the byte order mark. They
  are what \<open>String.prototype.trim\<close> removes and what may surround a numeric literal.
\<close>

definition is_whitespace :: "jschar \<Rightarrow> bool" where
  "is_whitespace c =
     (c = 0x09 \<or> c = 0x0A \<or> c = 0x0B \<or> c = 0x0C \<or> c = 0x0D \<or> c = 0x20 \<or> c = 0xA0
      \<or> c = 0x1680 \<or> (0x2000 \<le> c \<and> c \<le> 0x200A) \<or> c = 0x2028 \<or> c = 0x2029
      \<or> c = 0x202F \<or> c = 0x205F \<or> c = 0x3000 \<or> c = 0xFEFF)"

definition trim :: "jsstring \<Rightarrow> jsstring" where
  "trim s = rev (dropWhile is_whitespace (rev (dropWhile is_whitespace s)))"

definition startsWith :: "jsstring \<Rightarrow> jsstring \<Rightarrow> bool" where
  "startsWith s p = (take (length p) s = p)"

definition endsWith :: "jsstring \<Rightarrow> jsstring \<Rightarrow> bool" where
  "endsWith s p = (length p \<le> length s \<and> drop (length s - length p) s = p)"

subsection \<open>StringToNumber: what Number(text) returns\<close>

definition pow10 :: "int \<Rightarrow> rat" where
  "pow10 e = (if 0 \<le> e then 10 ^ nat e else 1 / 10 ^ nat (- e))"

definition decimal_digits :: "jsstring \<Rightarrow> nat option" where
  "decimal_digits ds = (if ds \<noteq> [] \<and> list_all is_digit ds then Some (read_nat ds) else None)"

text \<open>ExponentPart, or nothing: the text that may follow the digits of a decimal literal.\<close>

definition exponent_part :: "jsstring \<Rightarrow> int option" where
  "exponent_part t =
     (case t of
        [] \<Rightarrow> Some 0
      | c # r \<Rightarrow>
          if c = 0x65 \<or> c = 0x45 then
            (case r of
               [] \<Rightarrow> None
             | s # ds \<Rightarrow>
                 if s = 0x2B then map_option int (decimal_digits ds)
                 else if s = 0x2D then map_option (\<lambda>n. - int n) (decimal_digits ds)
                 else map_option int (decimal_digits r))
          else None)"

text \<open>
  StrUnsignedDecimalLiteral: \<open>Infinity\<close>, or digits with an optional fraction and an
  optional exponent, where the digits before or after the point may be missing but not
  both.
\<close>

definition StrUnsignedDecimalLiteral :: "jsstring \<Rightarrow> jsnum option" where
  "StrUnsignedDecimalLiteral t =
     (if t = js ''Infinity'' then Some JPosInf
      else
        let ip = takeWhile is_digit t;
            r1 = dropWhile is_digit t;
            dot = (r1 \<noteq> [] \<and> hd r1 = 0x2E);
            fp = (if dot then takeWhile is_digit (tl r1) else []);
            r2 = (if dot then dropWhile is_digit (tl r1) else r1)
        in if ip = [] \<and> fp = [] then None
           else case exponent_part r2 of
                  None \<Rightarrow> None
                | Some e \<Rightarrow>
                    Some (to_Number ((of_nat (read_nat ip) + of_nat (read_nat fp) / 10 ^ length fp)
                                       * pow10 e)))"

definition StrDecimalLiteral :: "jsstring \<Rightarrow> jsnum option" where
  "StrDecimalLiteral t =
     (case t of
        [] \<Rightarrow> None
      | c # r \<Rightarrow>
          if c = 0x2B then StrUnsignedDecimalLiteral r
          else if c = 0x2D then map_option negate (StrUnsignedDecimalLiteral r)
          else StrUnsignedDecimalLiteral t)"

definition hex_val :: "jschar \<Rightarrow> nat option" where
  "hex_val c =
     (if 0x30 \<le> c \<and> c \<le> 0x39 then Some (unat c - 48)
      else if 0x61 \<le> c \<and> c \<le> 0x66 then Some (unat c - 87)
      else if 0x41 \<le> c \<and> c \<le> 0x46 then Some (unat c - 55)
      else None)"

definition radix_digits :: "nat \<Rightarrow> jsstring \<Rightarrow> nat option" where
  "radix_digits b ds =
     (if ds \<noteq> [] \<and> list_all (\<lambda>c. case hex_val c of Some d \<Rightarrow> d < b | None \<Rightarrow> False) ds
      then Some (foldl (\<lambda>a c. b * a + the (hex_val c)) 0 ds) else None)"

text \<open>NonDecimalIntegerLiteral: \<open>0b\<close>, \<open>0o\<close> or \<open>0x\<close> (either case) and digits of that base; no sign.\<close>

definition NonDecimalIntegerLiteral :: "jsstring \<Rightarrow> jsnum option" where
  "NonDecimalIntegerLiteral t =
     (case t of
        z # x # ds \<Rightarrow>
          if z \<noteq> 0x30 then None
          else if x = 0x62 \<or> x = 0x42 then map_option (\<lambda>n. to_Number (of_nat n)) (radix_digits 2 ds)
          else if x = 0x6F \<or> x = 0x4F then map_option (\<lambda>n. to_Number (of_nat n)) (radix_digits 8 ds)
          else if x = 0x78 \<or> x = 0x58 then map_option (\<lambda>n. to_Number (of_nat n)) (radix_digits 16 ds)
          else None
      | _ \<Rightarrow> None)"

text \<open>
  StringToNumber: the text without the white space around it is empty (the value is 0), a
  numeric literal, or anything else (NaN).
\<close>

definition StringToNumber :: "jsstring \<Rightarrow> jsnum" where
  "StringToNumber s =
     (let t = trim s in
      if t = [] then JFin 0
      else case NonDecimalIntegerLiteral t of
             Some x \<Rightarrow> x
           | None \<Rightarrow> (case StrDecimalLiteral t of Some x \<Rightarrow> x | None \<Rightarrow> JNaN))"

section \<open>Documents\<close>

text \<open>
  The values \<open>updateJsonAtPath\<close> meets (its parameters are typed \<open>any\<close>): what JSON.parse
  returns, and \<open>undefined\<close>, which reading a missing property gives. An object is the list
  of its own properties in enumeration order. An array is the list of its elements and the
  list of the own properties it has besides them (and besides \<open>length\<close>): JSON.parse builds
  arrays without any, but an assignment \<open>result[k] = v\<close> whose key is no array index
  creates one. A hole of an array reads as \<open>undefined\<close>, is copied as \<open>undefined\<close> by a
  spread and is printed like it, so it is modelled as that element.
\<close>

datatype jsvalue =
    JUndefined
  | JNull
  | JBool bool
  | JNumber jsnum
  | JString jsstring
  | JArray "jsvalue list" "(jsstring \<times> jsvalue) list"
  | JObject "(jsstring \<times> jsvalue) list"

subsection \<open>updateJsonAtPath (index.tsx, lines 34-67)\<close>

text \<open>
  \<open>Array.isArray(json) ? [...json] : { ...json }\<close>. The spread of an array runs its iterator
  and copies the elements, not the other properties. The spread of anything else into an
  object literal copies the own enumerable properties: those of an object, the code units
  of a string under their positions, nothing for undefined, null, a boolean or a number
  (an array never reaches the object spread).
\<close>

fun spread_props :: "jsvalue \<Rightarrow> jsvalue props" where
  "spread_props (JObject es) = es"
| "spread_props (JString s) = map (\<lambda>i. (nat_digits i, JString [s ! i])) [0..<length s]"
| "spread_props v = []"

fun shallow_copy :: "jsvalue \<Rightarrow> jsvalue" where
  "shallow_copy (JArray xs ps) = JArray xs []"
| "shallow_copy v = JObject (spread_props v)"

text \<open>
  \<open>index >= 0 && index < result.length\<close> with \<open>index = first as number\<close>. The cast does
  nothing at run time: a string segment is compared after StringToNumber, and NaN
  compares false.
\<close>

fun in_bounds :: "segment \<Rightarrow> nat \<Rightarrow> bool" where
  "in_bounds (Idx n) len = (0 \<le> n \<and> n < int len)"
| "in_bounds (Key s) len =
     (case StringToNumber s of JFin r \<Rightarrow> 0 \<le> r \<and> r < of_nat len | _ \<Rightarrow> False)"

text \<open>
  The property key of a segment: a string is its own key, a number is turned into text.
  On an array the key names an element when it is an array index, a number from 0 to
  \<open>2 ^ 32 - 2\<close> or a string that is the canonical decimal text of one; every other key
  names an ordinary property of the array object. \<open>element_index\<close> gives the position a
  segment stands for: that of a number from 0 on, and that of a string which is the text of
  an array index. (A position below the length of an array is an array index, an array
  having at most \<open>2 ^ 32 - 1\<close> elements; beyond the length the two are told apart where
  they matter, in \<open>array_get\<close> and \<open>array_set\<close>.)
\<close>

fun prop_key :: "(rat \<Rightarrow> jsstring) \<Rightarrow> segment \<Rightarrow> jsstring" where
  "prop_key other (Idx n) = Number_toString other (JFin (of_int n))"
| "prop_key other (Key s) = s"

fun element_index :: "segment \<Rightarrow> nat option" where
  "element_index (Idx n) = (if 0 \<le> n then Some (nat n) else None)"
| "element_index (Key s) = array_index_of_key s"

definition obj_get :: "jsvalue props \<Rightarrow> jsstring \<Rightarrow> jsvalue" where
  "obj_get es k = (case map_of es k of Some v \<Rightarrow> v | None \<Rightarrow> JUndefined)"

text \<open>
  The assignment \<open>result[k] = v\<close> on an ordinary object creates or overwrites an own
  property, except that assigning to \<open>__proto__\<close> when the object has no own property of
  that name runs the inherited accessor and leaves the own properties as they are.
\<close>

definition obj_set :: "'v props \<Rightarrow> jsstring \<Rightarrow> 'v \<Rightarrow> 'v props" where
  "obj_set es k v =
     (if k = js ''__proto__'' \<and> \<not> has_own es k then es else obj_define k v es)"

text \<open>
  \<open>result[index]\<close> read on an array: the element at a position below the length, undefined
  at an array index beyond it, the length under \<open>length\<close>, and otherwise the own property of
  that name, undefined when there is none. (The names Array.prototype supplies are no
  numeric texts, so a segment that passed the bounds test never reads one of them.)
\<close>

definition array_get :: "(rat \<Rightarrow> jsstring) \<Rightarrow> jsvalue list \<Rightarrow> jsvalue props \<Rightarrow> segment \<Rightarrow> jsvalue" where
  "array_get other xs ps seg =
     (case element_index seg of
        Some i \<Rightarrow>
          if i < length xs then xs ! i
          else if i < 2 ^ 32 - 1 then JUndefined
          else obj_get ps (prop_key other seg)
      | None \<Rightarrow>
          if prop_key other seg = js ''length'' then JNumber (JFin (of_nat (length xs)))
          else obj_get ps (prop_key other seg))"

text \<open>
  \<open>result[index] = v\<close> on an array, giving the elements and the other properties after it.
  A position below the length sets the element there. An array index beyond the length
  makes the array grow, with holes in between. Any other key sets an ordinary property, as
  on an object. Assigning to \<open>length\<close> would run ArraySetLength, which is not modelled: the
  clause leaves the array as it is, and no string segment of that name passes the bounds
  test (its numeric value is NaN).
\<close>

definition array_set ::
  "'v \<Rightarrow> (rat \<Rightarrow> jsstring) \<Rightarrow> 'v list \<Rightarrow> 'v props \<Rightarrow> segment \<Rightarrow> 'v \<Rightarrow> 'v list \<times> 'v props" where
  "array_set hole other xs ps seg v =
     (case element_index seg of
        Some i \<Rightarrow>
          if i < length xs then (xs[i := v], ps)
          else if i < 2 ^ 32 - 1 then (xs @ replicate (i - length xs) hole @ [v], ps)
          else (xs, obj_set ps (prop_key other seg) v)
      | None \<Rightarrow>
          if prop_key other seg = js ''length'' then (xs, ps)
          else (xs, obj_set ps (prop_key other seg) v))"

text \<open>
  \<open>result[first as string]\<close> on the fresh object. Reading a property the object does not
  own gives undefined; for the names Object.prototype supplies (functions, and the
  \<open>__proto__\<close> accessor) the source reads that inherited value instead, which has no own
  enumerable property and is not an array, so the recursive call treats it exactly as it
  treats undefined.

  The function, branch by branch. The guard \<open>!path\<close> is left out (the path is never absent
  by its type). \<open>result\<close> is an array or a fresh object, so the test
  \<open>result && typeof result === "object"\<close> of line 61 always holds where it is reached.
\<close>

fun updateJsonAtPath :: "(rat \<Rightarrow> jsstring) \<Rightarrow> jsvalue \<Rightarrow> jsonpath \<Rightarrow> jsvalue \<Rightarrow> jsvalue" where
  "updateJsonAtPath other json [] newValue = newValue"
| "updateJsonAtPath other json (first # rest) newValue =
     (let result = shallow_copy json in
      if length rest = 0 then
        (case result of
           JArray xs ps \<Rightarrow>
             if in_bounds first (length xs)
             then (case array_set JUndefined other xs ps first newValue of
                     (ys, qs) \<Rightarrow> JArray ys qs)
             else result
         | JObject es \<Rightarrow> JObject (obj_set es (prop_key other first) newValue)
         | _ \<Rightarrow> result)
      else
        (case result of
           JArray xs ps \<Rightarrow>
             if in_bounds first (length xs)
             then (case array_set JUndefined other xs ps first
                          (updateJsonAtPath other (array_get other xs ps first) rest newValue) of
                     (ys, qs) \<Rightarrow> JArray ys qs)
             else result
         | JObject es \<Rightarrow>
             JObject (obj_set es (prop_key other first)
                        (updateJsonAtPath other (obj_get es (prop_key other first)) rest newValue))
         | _ \<Rightarrow> result))"

text \<open>
  The value a path points at, for a path that points at a valid location of a document:
  every segment in bounds and of the shape its container expects, a numeric segment on an
  array and a string segment on an object that has the key (the specification's \<open>get\<close>).
  The arrays of a document are JSON arrays: they have no property besides their elements.
\<close>

fun value_at :: "jsvalue \<Rightarrow> jsonpath \<Rightarrow> jsvalue option" where
  "value_at d [] = Some d"
| "value_at (JArray xs []) (Idx n # rest) =
     (if 0 \<le> n \<and> n < int (length xs) then value_at (xs ! nat n) rest else None)"
| "value_at (JObject es) (Key k # rest) =
     (case map_of es k of Some v \<Rightarrow> value_at v rest | None \<Rightarrow> None)"
| "value_at d (seg # rest) = None"

text \<open>Documents used as examples.\<close>

definition num :: "int \<Rightarrow> jsvalue" where
  "num k = JNumber (JFin (of_int k))"


definition doc_items :: jsvalue where
  "doc_items = JObject [(js ''items'', JArray [num 1, num 2, num 3] [])]"

section \<open>JSON.parse\<close>

text \<open>
  \<open>JSON.parse\<close> is the platform's; the model follows the JSON grammar (ECMA-404) as
  ECMAScript applies it: a text is white space, one value, white space; it either gives
  a value or throws a SyntaxError. The text is cut into tokens first, then a stack
  machine reads the tokens.
\<close>

datatype js_error = SyntaxError

datatype token =
    TLBrace | TRBrace | TLBrack | TRBrack | TComma | TColon
  | TStr jsstring | TNum jsnum | TTrue | TFalse | TNull

definition is_json_ws :: "jschar \<Rightarrow> bool" where
  "is_json_ws c = (c = 0x20 \<or> c = 0x09 \<or> c = 0x0A \<or> c = 0x0D)"

definition simple_escape :: "jschar \<Rightarrow> jschar option" where
  "simple_escape e =
     (if e = 0x22 then Some 0x22
      else if e = 0x5C then Some 0x5C
      else if e = 0x2F then Some 0x2F
      else if e = 0x62 then Some 0x08
      else if e = 0x66 then Some 0x0C
      else if e = 0x6E then Some 0x0A
      else if e = 0x72 then Some 0x0D
      else if e = 0x74 then Some 0x09
      else None)"

definition hex4 :: "jschar \<Rightarrow> jschar \<Rightarrow> jschar \<Rightarrow> jschar \<Rightarrow> jschar option" where
  "hex4 a b c d =
     (case (hex_val a, hex_val b, hex_val c, hex_val d) of
        (Some w, Some x, Some y, Some z) \<Rightarrow> Some (of_nat (4096 * w + 256 * x + 16 * y + z))
      | _ \<Rightarrow> None)"

text \<open>
  The characters of a string after its opening quote, up to the closing quote: the
  string's value and the text that follows. A code unit below 0x20, a backslash before
  anything but an escape, and the end of the text before the closing quote are errors.
\<close>

fun lex_string :: "jsstring \<Rightarrow> (jsstring \<times> jsstring) option" where
  "lex_string [] = None"
| "lex_string (c # cs) =
     (if c = 0x22 then Some ([], cs)
      else if c = 0x5C then
        (case cs of
           [] \<Rightarrow> None
         | e # r \<Rightarrow>
             if e = 0x75 then
               (case r of
                  h1 # h2 # h3 # h4 # r' \<Rightarrow>
                    (case hex4 h1 h2 h3 h4 of
                       None \<Rightarrow> None
                     | Some u \<Rightarrow> map_option (\<lambda>(s, rest). (u # s, rest)) (lex_string r'))
                | _ \<Rightarrow> None)
             else
               (case simple_escape e of
                  None \<Rightarrow> None
                | Some u \<Rightarrow> map_option (\<lambda>(s, rest). (u # s, rest)) (lex_string r)))
      else if c < 0x20 then None
      else map_option (\<lambda>(s, rest). (c # s, rest)) (lex_string cs))"

text \<open>
  A number: an optional minus, an integer part without a leading zero (or the single
  digit 0), an optional fraction with at least one digit, an optional exponent with at
  least one digit. The value is the mathematical value as a Number.
\<close>

definition lex_exponent :: "jsstring \<Rightarrow> (int \<times> jsstring) option" where
  "lex_exponent t =
     (if t \<noteq> [] \<and> (hd t = 0x65 \<or> hd t = 0x45) then
        (let r = tl t;
             neg = (r \<noteq> [] \<and> hd r = 0x2D);
             ds = (if r \<noteq> [] \<and> (hd r = 0x2B \<or> hd r = 0x2D) then tl r else r)
         in if takeWhile is_digit ds = [] then None
            else Some ((if neg then - int (read_nat (takeWhile is_digit ds))
                        else int (read_nat (takeWhile is_digit ds))),
                       dropWhile is_digit ds))
      else Some (0, t))"

definition lex_number :: "jsstring \<Rightarrow> (jsnum \<times> jsstring) option" where
  "lex_number t =
     (let neg = (t \<noteq> [] \<and> hd t = 0x2D);
          r0 = (if neg then tl t else t);
          ip = takeWhile is_digit r0;
          r1 = dropWhile is_digit r0;
          dot = (r1 \<noteq> [] \<and> hd r1 = 0x2E);
          fp = (if dot then takeWhile is_digit (tl r1) else []);
          r2 = (if dot then dropWhile is_digit (tl r1) else r1)
      in if ip = [] \<or> (hd ip = 0x30 \<and> length ip \<noteq> 1) \<or> (dot \<and> fp = []) then None
         else case lex_exponent r2 of
                None \<Rightarrow> None
              | Some (e, rest) \<Rightarrow>
                  let mv = (of_nat (read_nat ip) + of_nat (read_nat fp) / 10 ^ length fp) * pow10 e
                  in Some (to_Number (if neg then - mv else mv), rest))"

subsection \<open>Tokens\<close>

text \<open>Each of the lexing functions consumes text: what it leaves is shorter.\<close>

lemma lex_string_plain:
  assumes "lex_string (c # cs) = Some (s, rest)" "c \<noteq> 0x22" "c \<noteq> 0x5C"
  shows "\<exists>s'. lex_string cs = Some (s', rest)"
  using assms by (auto split: if_splits)

lemma lex_string_escape:
  assumes "lex_string (c # e # r) = Some (s, rest)" "c = 0x5C" "e \<noteq> 0x75"
  shows "\<exists>s'. lex_string r = Some (s', rest)"
  using assms by (auto split: option.splits)

lemma lex_string_unicode:
  assumes "lex_string (c # e # r) = Some (s, rest)" "c = 0x5C" "e = 0x75"
  shows "\<exists>h1 h2 h3 h4 r' s'. r = h1 # h2 # h3 # h4 # r' \<and> lex_string r' = Some (s', rest)"
  using assms by (auto split: list.splits option.splits)

lemma lex_string_shorter:
  "lex_string cs = Some (s, rest) \<Longrightarrow> length rest < length cs"
proof (induction "length cs" arbitrary: cs s rest rule: less_induct)
  case less
  show ?case
  proof (cases cs)
    case Nil
    with less.prems show ?thesis by simp
  next
    case (Cons c cs')
    note p = less.prems[unfolded Cons]
    show ?thesis
    proof (cases "c = 0x22")
      case True
      with p Cons show ?thesis by simp
    next
      case nq: False
      show ?thesis
      proof (cases "c = 0x5C")
        case False
        from lex_string_plain[OF p nq False] obtain s' where "lex_string cs' = Some (s', rest)" ..
        from less.hyps[OF _ this] Cons show ?thesis by simp
      next
        case True
        show ?thesis
        proof (cases cs')
          case Nil
          with p True show ?thesis by simp
        next
          case (Cons e r)
          note q = p[unfolded Cons]
          show ?thesis
          proof (cases "e = 0x75")
            case False
            from lex_string_escape[OF q True False] obtain s' where "lex_string r = Some (s', rest)" ..
            from less.hyps[OF _ this] Cons \<open>cs = c # cs'\<close> show ?thesis by simp
          next
            case u: True
            from lex_string_unicode[OF q True u] obtain h1 h2 h3 h4 r' s' where
              "r = h1 # h2 # h3 # h4 # r'" "lex_string r' = Some (s', rest)" by blast
            with less.hyps[OF _ this(2)] Cons \<open>cs = c # cs'\<close> show ?thesis by simp
          qed
        qed
      qed
    qed
  qed
qed

lemma lex_exponent_shorter:
  "lex_exponent t = Some (e, rest) \<Longrightarrow> length rest \<le> length t"
proof -
  assume a: "lex_exponent t = Some (e, rest)"
  have d: "length (dropWhile is_digit xs) \<le> length xs" for xs :: jsstring
    by (rule length_dropWhile_le)
  show ?thesis
  proof (cases "t \<noteq> [] \<and> (hd t = 0x65 \<or> hd t = 0x45)")
    case False
    with a show ?thesis by (auto simp: lex_exponent_def)
  next
    case True
    define r where "r = tl t"
    define ds where "ds = (if r \<noteq> [] \<and> (hd r = 0x2B \<or> hd r = 0x2D) then tl r else r)"
    from a True have "rest = dropWhile is_digit ds"
      by (auto simp: lex_exponent_def Let_def r_def ds_def split: if_splits)
    moreover have "length ds \<le> length r" by (simp add: ds_def)
    moreover have "length r \<le> length t" by (simp add: r_def)
    ultimately show ?thesis using d[of ds] by simp
  qed
qed

lemma lex_number_shorter:
  assumes "lex_number t = Some (x, rest)"
  shows "length rest < length t"
proof -
  define r0 where "r0 = (if t \<noteq> [] \<and> hd t = 0x2D then tl t else t)"
  define ip where "ip = takeWhile is_digit r0"
  define r1 where "r1 = dropWhile is_digit r0"
  define r2 where "r2 = (if r1 \<noteq> [] \<and> hd r1 = 0x2E then dropWhile is_digit (tl r1) else r1)"
  from assms obtain e where ne: "ip \<noteq> []" and ex: "lex_exponent r2 = Some (e, rest)"
    by (auto simp: lex_number_def Let_def r0_def ip_def r1_def r2_def
        split: if_splits option.splits)
  have "length r0 = length ip + length r1"
    unfolding ip_def r1_def by (metis length_append takeWhile_dropWhile_id)
  with ne have 1: "length r1 < length r0" by simp
  have "length (dropWhile is_digit (tl r1)) \<le> length (tl r1)" by (rule length_dropWhile_le)
  then have 2: "length r2 \<le> length r1" by (cases r1) (simp_all add: r2_def)
  have 3: "length r0 \<le> length t" by (simp add: r0_def)
  from lex_exponent_shorter[OF ex] 1 2 3 show ?thesis by simp
qed

text \<open>
  One token at the head of the text: a punctuation mark, a string, one of the three
  literal names, or a number.
\<close>

definition strip_prefix :: "jsstring \<Rightarrow> jsstring \<Rightarrow> jsstring option" where
  "strip_prefix p s = (if take (length p) s = p then Some (drop (length p) s) else None)"

definition next_token :: "jschar \<Rightarrow> jsstring \<Rightarrow> (token \<times> jsstring) option" where
  "next_token c cs =
     (if c = 0x7B then Some (TLBrace, cs)
      else if c = 0x7D then Some (TRBrace, cs)
      else if c = 0x5B then Some (TLBrack, cs)
      else if c = 0x5D then Some (TRBrack, cs)
      else if c = 0x2C then Some (TComma, cs)
      else if c = 0x3A then Some (TColon, cs)
      else if c = 0x22 then map_option (\<lambda>(s, rest). (TStr s, rest)) (lex_string cs)
      else if c = 0x74 then map_option (Pair TTrue) (strip_prefix (js ''rue'') cs)
      else if c = 0x66 then map_option (Pair TFalse) (strip_prefix (js ''alse'') cs)
      else if c = 0x6E then map_option (Pair TNull) (strip_prefix (js ''ull'') cs)
      else if c = 0x2D \<or> is_digit c then map_option (\<lambda>(x, rest). (TNum x, rest)) (lex_number (c # cs))
      else None)"

lemma next_token_shorter:
  assumes "next_token c cs = Some (tok, rest)"
  shows "length rest < Suc (length cs)"
proof -
  have s: "length r \<le> length cs" if "strip_prefix p cs = Some r" for p r
    using that by (auto simp: strip_prefix_def split: if_splits)
  consider (same) "rest = cs"
    | (str) s where "lex_string cs = Some (s, rest)"
    | (lit) p where "strip_prefix p cs = Some rest"
    | (num) x where "lex_number (c # cs) = Some (x, rest)"
    using assms unfolding next_token_def by (auto split: if_splits)
  then show ?thesis
  proof cases
    case same
    then show ?thesis by simp
  next
    case str
    from lex_string_shorter[OF this] show ?thesis by simp
  next
    case lit
    from s[OF this] show ?thesis by simp
  next
    case num
    from lex_number_shorter[OF this] show ?thesis by simp
  qed
qed


text \<open>The tokens of a text, white space between them skipped; \<open>None\<close> when some part is no token.\<close>

function lex :: "jsstring \<Rightarrow> token list option" where
  "lex [] = Some []"
| "lex (c # cs) =
     (if is_json_ws c then lex cs
      else case next_token c cs of
             None \<Rightarrow> None
           | Some (tok, rest) \<Rightarrow> map_option (Cons tok) (lex rest))"
  by pat_completeness auto
termination
proof (relation "measure length")
  show "wf (measure length)" by simp
next
  fix c cs
  show "(cs, c # cs) \<in> measure length" by simp
next
  fix c cs x2 x y
  assume "next_token c cs = Some x2" "(x, y) = x2"
  then have "next_token c cs = Some (x, y)" by simp
  from next_token_shorter[OF this] show "(y, c # cs) \<in> measure length" by simp
qed

subsection \<open>Values from tokens\<close>

text \<open>
  A stack machine over the tokens. A frame is an array or an object under construction;
  an object frame holds the key that waits for its value once the key has been read. A
  property is added to an object by CreateDataProperty, so a repeated key keeps its first
  place and takes the last value, and \<open>__proto__\<close> is a key like any other.
\<close>

datatype frame = FArr "jsvalue list" | FObj "jsvalue props" | FKey "jsvalue props" jsstring

datatype pmode =
    WantValue | WantValueOrClose | WantKeyOrClose | WantKey | WantColon | AfterValue
  | Finished jsvalue | Failed

type_synonym pstate = "pmode \<times> frame list"

fun deliver :: "jsvalue \<Rightarrow> frame list \<Rightarrow> pstate" where
  "deliver v [] = (Finished v, [])"
| "deliver v (FArr xs # st) = (AfterValue, FArr (xs @ [v]) # st)"
| "deliver v (FKey es k # st) = (AfterValue, FObj (obj_define k v es) # st)"
| "deliver v (FObj es # st) = (Failed, [])"

fun value_token :: "token \<Rightarrow> frame list \<Rightarrow> pstate" where
  "value_token (TStr s) st = deliver (JString s) st"
| "value_token (TNum x) st = deliver (JNumber x) st"
| "value_token TTrue st = deliver (JBool True) st"
| "value_token TFalse st = deliver (JBool False) st"
| "value_token TNull st = deliver JNull st"
| "value_token TLBrack st = (WantValueOrClose, FArr [] # st)"
| "value_token TLBrace st = (WantKeyOrClose, FObj [] # st)"
| "value_token tok st = (Failed, [])"

fun close_array :: "frame list \<Rightarrow> pstate" where
  "close_array (FArr xs # st) = deliver (JArray xs []) st"
| "close_array st = (Failed, [])"

fun close_object :: "frame list \<Rightarrow> pstate" where
  "close_object (FObj es # st) = deliver (JObject es) st"
| "close_object st = (Failed, [])"

fun key_token :: "token \<Rightarrow> frame list \<Rightarrow> pstate" where
  "key_token (TStr k) (FObj es # st) = (WantColon, FKey es k # st)"
| "key_token tok st = (Failed, [])"

fun after_value :: "token \<Rightarrow> frame list \<Rightarrow> pstate" where
  "after_value TComma (FArr xs # st) = (WantValue, FArr xs # st)"
| "after_value TRBrack (FArr xs # st) = close_array (FArr xs # st)"
| "after_value TComma (FObj es # st) = (WantKey, FObj es # st)"
| "after_value TRBrace (FObj es # st) = close_object (FObj es # st)"
| "after_value tok st = (Failed, [])"

fun step :: "pstate \<Rightarrow> token \<Rightarrow> pstate" where
  "step (WantValue, st) tok = value_token tok st"
| "step (WantValueOrClose, st) tok =
     (if tok = TRBrack then close_array st else value_token tok st)"
| "step (WantKeyOrClose, st) tok =
     (if tok = TRBrace then close_object st else key_token tok st)"
| "step (WantKey, st) tok = key_token tok st"
| "step (WantColon, st) tok = (if tok = TColon then (WantValue, st) else (Failed, []))"
| "step (AfterValue, st) tok = after_value tok st"
| "step (Finished v, st) tok = (Failed, [])"
| "step (Failed, st) tok = (Failed, [])"

definition parse_tokens :: "token list \<Rightarrow> jsvalue option" where
  "parse_tokens toks =
     (case foldl step (WantValue, []) toks of
        (Finished v, st) \<Rightarrow> Some v
      | _ \<Rightarrow> None)"

definition JSON_parse :: "jsstring \<Rightarrow> js_error + jsvalue" where
  "JSON_parse text =
     (case lex text of
        None \<Rightarrow> Inl SyntaxError
      | Some toks \<Rightarrow>
          (case parse_tokens toks of None \<Rightarrow> Inl SyntaxError | Some v \<Rightarrow> Inr v))"

section \<open>The value of an edit\<close>

subsection \<open>handleSave, the inner try and catch (index.tsx, lines 104-124)\<close>

text \<open>
  \<open>newValue\<close> after the block, or the exception that leaves it. The inner \<open>catch\<close> takes
  the failure of the first \<open>JSON.parse\<close>; the \<open>JSON.parse(trimmed)\<close> inside the catch block
  is not guarded by it, so its SyntaxError leaves the block (the outer \<open>catch\<close> of line 143
  reports it as invalid JSON).
\<close>

definition handleSave_newValue :: "jsstring \<Rightarrow> js_error + jsvalue" where
  "handleSave_newValue editedContent =
     (case JSON_parse editedContent of
        Inr v \<Rightarrow> Inr v
      | Inl err \<Rightarrow>
          let trimmed = trim editedContent in
          if startsWith trimmed [dquote] \<and> endsWith trimmed [dquote] then JSON_parse trimmed
          else if trimmed = js ''null'' then Inr JNull
          else if trimmed = js ''true'' then Inr (JBool True)
          else if trimmed = js ''false'' then Inr (JBool False)
          else if \<not> isNaN (StringToNumber trimmed) \<and> trimmed \<noteq> []
            then Inr (JNumber (StringToNumber trimmed))
          else Inr (JString trimmed))"

text \<open>
  Names for the statements below: a text is quoted when it starts and ends with a double
  quote (the first test of the catch block); a Number is finite when it is neither NaN
  nor an infinity. Two example texts: \<open>true\<close> after a no-break space, and \<open>+5\<close>.
\<close>

definition quoted :: "jsstring \<Rightarrow> bool" where
  "quoted t = (startsWith t [dquote] \<and> endsWith t [dquote])"

definition is_finite :: "jsnum \<Rightarrow> bool" where
  "is_finite x = (case x of JFin r \<Rightarrow> True | _ \<Rightarrow> False)"

definition nbsp_true :: jsstring where
  "nbsp_true = 0xA0 # js ''true''"

definition plus5 :: jsstring where
  "plus5 = js ''+5''"

section \<open>The same function on a heap\<close>

text \<open>
  Arrays and objects are containers with an identity. To state which containers a call
  shares with its argument and which it writes to, the function is modelled a second
  time over an explicit heap: a container lives at an address, a value is a primitive
  or a reference to a container, a literal \<open>[...]\<close> or \<open>{...}\<close> allocates a container at a
  fresh address, and an assignment \<open>result[k] = v\<close> writes the container at the address
  \<open>result\<close> refers to. The heap is the list of its containers; the address of a container
  is its position, and allocation appends.
\<close>

type_synonym addr = nat

datatype hvalue =
    HUndefined
  | HNull
  | HBool bool
  | HNumber jsnum
  | HString jsstring
  | HRef addr

datatype container = HArray "hvalue list" "hvalue props" | HObject "hvalue props"

type_synonym heap = "container list"

text \<open>
  \<open>Array.isArray(json)\<close>, and the container a spread of \<open>json\<close> builds: an array with the
  elements of \<open>json\<close>, or an object with its own properties.
\<close>

definition isArray :: "heap \<Rightarrow> hvalue \<Rightarrow> bool" where
  "isArray h v =
     (case v of
        HRef a \<Rightarrow> a < length h \<and> (case h ! a of HArray xs ps \<Rightarrow> True | HObject es \<Rightarrow> False)
      | _ \<Rightarrow> False)"

definition hspread_props :: "heap \<Rightarrow> hvalue \<Rightarrow> hvalue props" where
  "hspread_props h v =
     (case v of
        HRef a \<Rightarrow> (if a < length h then (case h ! a of HObject es \<Rightarrow> es | HArray xs ps \<Rightarrow> []) else [])
      | HString s \<Rightarrow> map (\<lambda>i. (nat_digits i, HString [s ! i])) [0..<length s]
      | _ \<Rightarrow> [])"

definition helements :: "heap \<Rightarrow> hvalue \<Rightarrow> hvalue list" where
  "helements h v =
     (case v of
        HRef a \<Rightarrow> (if a < length h then (case h ! a of HArray xs ps \<Rightarrow> xs | HObject es \<Rightarrow> []) else [])
      | _ \<Rightarrow> [])"

definition hshallow_copy :: "heap \<Rightarrow> hvalue \<Rightarrow> container" where
  "hshallow_copy h v =
     (if isArray h v then HArray (helements h v) [] else HObject (hspread_props h v))"

definition hobj_get :: "hvalue props \<Rightarrow> jsstring \<Rightarrow> hvalue" where
  "hobj_get es k = (case map_of es k of Some v \<Rightarrow> v | None \<Rightarrow> HUndefined)"

definition harray_get :: "(rat \<Rightarrow> jsstring) \<Rightarrow> hvalue list \<Rightarrow> hvalue props \<Rightarrow> segment \<Rightarrow> hvalue" where
  "harray_get other xs ps seg =
     (case element_index seg of
        Some i \<Rightarrow>
          if i < length xs then xs ! i
          else if i < 2 ^ 32 - 1 then HUndefined
          else hobj_get ps (prop_key other seg)
      | None \<Rightarrow>
          if prop_key other seg = js ''length'' then HNumber (JFin (of_nat (length xs)))
          else hobj_get ps (prop_key other seg))"

text \<open>The two assignments, as writes to the container at an address.\<close>

definition store_element :: "(rat \<Rightarrow> jsstring) \<Rightarrow> heap \<Rightarrow> addr \<Rightarrow> segment \<Rightarrow> hvalue \<Rightarrow> heap" where
  "store_element other h a seg v =
     (case h ! a of
        HArray xs ps \<Rightarrow>
          (case array_set HUndefined other xs ps seg v of (ys, qs) \<Rightarrow> h[a := HArray ys qs])
      | HObject es \<Rightarrow> h)"

definition store_property :: "heap \<Rightarrow> addr \<Rightarrow> jsstring \<Rightarrow> hvalue \<Rightarrow> heap" where
  "store_property h a k v =
     (case h ! a of HObject es \<Rightarrow> h[a := HObject (obj_set es k v)] | HArray xs ps \<Rightarrow> h)"

text \<open>
  The function with the heap passed through: \<open>r\<close> is the address of \<open>result\<close>. In
  \<open>result[index] = updateJsonAtPath(result[index], ...)\<close> the element is read, the call
  runs, and the assignment then writes the container as it is after the call.
\<close>

fun hupdate ::
  "(rat \<Rightarrow> jsstring) \<Rightarrow> hvalue \<Rightarrow> jsonpath \<Rightarrow> hvalue \<Rightarrow> heap \<Rightarrow> hvalue \<times> heap" where
  "hupdate other json [] newValue h = (newValue, h)"
| "hupdate other json (first # rest) newValue h =
     (let r = length h;
          h1 = h @ [hshallow_copy h json]
      in if length rest = 0 then
           (case h1 ! r of
              HArray xs ps \<Rightarrow>
                if in_bounds first (length xs)
                then (HRef r, store_element other h1 r first newValue)
                else (HRef r, h1)
            | HObject es \<Rightarrow> (HRef r, store_property h1 r (prop_key other first) newValue))
         else
           (case h1 ! r of
              HArray xs ps \<Rightarrow>
                if in_bounds first (length xs) then
                  (case hupdate other (harray_get other xs ps first) rest newValue h1 of
                     (child, h2) \<Rightarrow> (HRef r, store_element other h2 r first child))
                else (HRef r, h1)
            | HObject es \<Rightarrow>
                (case hupdate other (hobj_get es (prop_key other first)) rest newValue h1 of
                   (child, h2) \<Rightarrow>
                     (HRef r, store_property h2 r (prop_key other first) child))))"

text \<open>
  Reading along a path in a heap: the child of a container under a segment is the element
  of the array or the own property of the object the segment names.
\<close>

fun hlookup :: "(rat \<Rightarrow> jsstring) \<Rightarrow> heap \<Rightarrow> hvalue \<Rightarrow> jsonpath \<Rightarrow> hvalue option" where
  "hlookup other h v [] = Some v"
| "hlookup other h v (q # qs) =
     (case v of
        HRef a \<Rightarrow>
          if a < length h then
            (case h ! a of
               HArray xs zs \<Rightarrow>
                 (case element_index q of
                    None \<Rightarrow> None
                  | Some i \<Rightarrow> if i < length xs then hlookup other h (xs ! i) qs else None)
             | HObject es \<Rightarrow>
                 (case map_of es (prop_key other q) of
                    None \<Rightarrow> None
                  | Some w \<Rightarrow> hlookup other h w qs))
          else None
      | _ \<Rightarrow> None)"

text \<open>
  Reading along \<open>Q\<close> where \<open>Q\<close> leaves the path \<open>P\<close>: the two name the same children for a
  while, then \<open>Q\<close> names another child than \<open>P\<close> does. It gives nothing when \<open>Q\<close> is a prefix
  of \<open>P\<close> (a container on the ancestor chain) or runs through the place \<open>P\<close> points at.
\<close>

fun lookup_off ::
  "(rat \<Rightarrow> jsstring) \<Rightarrow> heap \<Rightarrow> hvalue \<Rightarrow> jsonpath \<Rightarrow> jsonpath \<Rightarrow> hvalue option" where
  "lookup_off other h v [] Q = None"
| "lookup_off other h v (p # ps) [] = None"
| "lookup_off other h v (p # ps) (q # qs) =
     (case v of
        HRef a \<Rightarrow>
          if a < length h then
            (case h ! a of
               HArray xs zs \<Rightarrow>
                 (case element_index q of
                    None \<Rightarrow> None
                  | Some i \<Rightarrow>
                      if i < length xs then
                        (if element_index p = Some i then lookup_off other h (xs ! i) ps qs
                         else hlookup other h (xs ! i) qs)
                      else None)
             | HObject es \<Rightarrow>
                 (case map_of es (prop_key other q) of
                    None \<Rightarrow> None
                  | Some w \<Rightarrow>
                      if prop_key other p = prop_key other q then lookup_off other h w ps qs
                      else hlookup other h w qs))
          else None
      | _ \<Rightarrow> None)"

text \<open>
  A later heap frames an earlier one when every container of the earlier heap is still
  there, at its address, with the same content.
\<close>

definition frame :: "heap \<Rightarrow> heap \<Rightarrow> bool" where
  "frame h h' = (length h \<le> length h' \<and> list_all (\<lambda>a. h' ! a = h ! a) [0..<length h])"

text \<open>
  An example heap: the document \<open>{"items":[1,2,3],"meta":{"k":true}}\<close> at address 0, and the
  heap after the element 1 of \<open>items\<close> is set to 99.
\<close>

definition heap_items :: heap where
  "heap_items =
     [HObject [(js ''items'', HRef 1), (js ''meta'', HRef 2)],
      HArray [HNumber (JFin 1), HNumber (JFin 2), HNumber (JFin 3)] [],
      HObject [(js ''k'', HBool True)]]"

definition heap_items_updated :: heap where
  "heap_items_updated =
     heap_items @
     [HObject [(js ''items'', HRef 4), (js ''meta'', HRef 2)],
      HArray [HNumber (JFin 1), HNumber (JFin 99), HNumber (JFin 3)] []]"

definition doc_items_meta :: jsvalue where
  "doc_items_meta =
     JObject [(js ''items'', JArray [num 1, num 2, num 3] []), (js ''meta'', JObject [(js ''k'', JBool True)])]"

text \<open>
  A heap value represents a document when following its references gives that document:
  a primitive represents itself, a reference an array or an object whose elements and
  property values are represented in turn, with the same keys in the same order.
\<close>

definition same_props :: "(hvalue \<Rightarrow> jsvalue \<Rightarrow> bool) \<Rightarrow> hvalue props \<Rightarrow> jsvalue props \<Rightarrow> bool" where
  "same_props R es fs = list_all2 (\<lambda>e f. fst e = fst f \<and> R (snd e) (snd f)) es fs"

lemma same_props_mono [mono]:
  "R \<le> R' \<Longrightarrow> same_props R es fs \<longrightarrow> same_props R' es fs"
  unfolding same_props_def by (auto elim!: list_all2_mono)

inductive repr :: "heap \<Rightarrow> hvalue \<Rightarrow> jsvalue \<Rightarrow> bool" for h where
  repr_undefined: "repr h HUndefined JUndefined"
| repr_null: "repr h HNull JNull"
| repr_bool: "repr h (HBool b) (JBool b)"
| repr_number: "repr h (HNumber x) (JNumber x)"
| repr_string: "repr h (HString s) (JString s)"
| repr_array: "a < length h \<Longrightarrow> h ! a = HArray xs ps \<Longrightarrow> list_all2 (repr h) xs ys \<Longrightarrow>
     same_props (repr h) ps qs \<Longrightarrow> repr h (HRef a) (JArray ys qs)"
| repr_object: "a < length h \<Longrightarrow> h ! a = HObject es \<Longrightarrow> same_props (repr h) es fs \<Longrightarrow>
     repr h (HRef a) (JObject fs)"

code_pred (modes: i \<Rightarrow> i \<Rightarrow> i \<Rightarrow> bool) repr .

section \<open>Enumeration order of own properties\<close>

text \<open>
  OrdinaryOwnPropertyKeys lists the array-index keys in ascending numeric order, then the
  other string keys in the order of their creation. A property list is in enumeration
  order when no key occurs twice and every later key may follow every earlier one.
\<close>

definition later_ok :: "jsstring \<Rightarrow> jsstring \<Rightarrow> bool" where
  "later_ok k k' =
     (case array_index_of_key k of
        Some n \<Rightarrow> (case array_index_of_key k' of Some m \<Rightarrow> n < m | None \<Rightarrow> True)
      | None \<Rightarrow> array_index_of_key k' = None)"

fun enumeration_order :: "jsstring list \<Rightarrow> bool" where
  "enumeration_order [] = True"
| "enumeration_order (k # ks) = (k \<notin> set ks \<and> list_all (later_ok k) ks \<and> enumeration_order ks)"

text \<open>
  CopyDataProperties, which an object spread runs: every own property of the source, in
  its enumeration order, is defined on a fresh object.
\<close>

definition copy_props :: "'v props \<Rightarrow> 'v props" where
  "copy_props es = foldl (\<lambda>acc e. obj_define (fst e) (snd e) acc) [] es"

text \<open>
  A document all of whose objects (and arrays, for the properties besides their elements)
  list their properties in enumeration order.
\<close>

fun well_ordered :: "jsvalue \<Rightarrow> bool" where
  "well_ordered (JArray xs ps) =
     (list_all well_ordered xs
      \<and> enumeration_order (map fst ps) \<and> list_all (\<lambda>e. well_ordered (snd e)) ps)"
| "well_ordered (JObject es) =
     (enumeration_order (map fst es) \<and> list_all (\<lambda>e. well_ordered (snd e)) es)"
| "well_ordered v = True"

text \<open>The same for the containers the parser has open.\<close>

fun frame_ok :: "frame \<Rightarrow> bool" where
  "frame_ok (FArr xs) = list_all well_ordered xs"
| "frame_ok (FObj es) = well_ordered (JObject es)"
| "frame_ok (FKey es k) = well_ordered (JObject es)"

fun state_ok :: "pstate \<Rightarrow> bool" where
  "state_ok (Finished v, st) = (well_ordered v \<and> list_all frame_ok st)"
| "state_ok (m, st) = list_all frame_ok st"

section \<open>Path formatting\<close>

lemma join_brackets:
  "xs \<noteq> [] \<Longrightarrow> js ''['' @ join (js '']['') xs @ js '']'' = concat (map (\<lambda>x. js ''['' @ x @ js '']'') xs)"
proof (induction "js ''][''" xs rule: join.induct)
  case 1
  then show ?case by simp
next
  case (2 x)
  show ?case by simp
next
  case (3 x y ys)
  have "js ''['' @ join (js '']['') (y # ys) @ js '']'' =
        concat (map (\<lambda>x. js ''['' @ x @ js '']'') (y # ys))"
    using 3 by simp
  then have "js '']['' @ join (js '']['') (y # ys) @ js '']'' =
        js '']'' @ concat (map (\<lambda>x. js ''['' @ x @ js '']'') (y # ys))"
    by (simp add: js_def)
  then show ?case by simp
qed

lemma jsonPathToString_groups:
  "p \<noteq> [] \<Longrightarrow>
   jsonPathToString other (Some p) = js ''$'' @ concat (map (\<lambda>seg. js ''['' @ seg_text other seg @ js '']'') p)"
proof -
  assume ne: "p \<noteq> []"
  then have "map (seg_text other) p \<noteq> []" by simp
  from join_brackets[OF this]
  have "js ''['' @ join (js '']['') (map (seg_text other) p) @ js '']'' =
        concat (map (\<lambda>seg. js ''['' @ seg_text other seg @ js '']'') p)"
    by (simp add: comp_def)
  moreover have "js ''$['' = js ''$'' @ js ''[''" by (simp add: js_def)
  ultimately show ?thesis using ne by (simp add: jsonPathToString_def)
qed

lemma is_safe_integer_of_int: "is_safe_integer (of_int n) = (\<bar>n\<bar> < 2 ^ 53)"
proof -
  have "(\<bar>of_int n :: rat\<bar> < 2 ^ 53) = (\<bar>n\<bar> < 2 ^ 53)"
  proof -
    have "(\<bar>of_int n :: rat\<bar> < of_int (2 ^ 53)) = (\<bar>n\<bar> < 2 ^ 53)"
      by (simp only: of_int_abs[symmetric] of_int_less_iff)
    then show ?thesis by simp
  qed
  then show ?thesis by (simp add: is_safe_integer_def)
qed

lemma Number_toString_safe:
  "\<bar>n\<bar> < 2 ^ 53 \<Longrightarrow> Number_toString other (JFin (of_int n)) = int_toString n"
  by (simp add: Number_toString_def is_safe_integer_of_int)

lemma Number_toString_index:
  "is_array_index n \<Longrightarrow> Number_toString other (JFin (of_int n)) = nat_digits (nat n)"
proof -
  assume a: "is_array_index n"
  then have "\<bar>n\<bar> < 2 ^ 53" by (simp add: is_array_index_def)
  from Number_toString_safe[OF this] a show ?thesis
    by (simp add: int_toString_def is_array_index_def)
qed

lemma Number_toString_0: "Number_toString other (JFin 0) = js ''0''"
  using Number_toString_index[of 0 other]
  by (simp add: is_array_index_def nat_digits.simps[of 0] digit_char_def js_def)

lemma spec_group_seg_text:
  "index_segment_ok seg \<Longrightarrow> js ''['' @ seg_text other seg @ js '']'' = spec_group seg"
  by (cases seg) (simp_all add: Number_toString_index)

lemma digit_char_is_digit:
  "d < 10 \<Longrightarrow> 0x30 \<le> digit_char d \<and> digit_char d \<le> 0x39"
proof -
  assume "d < 10"
  then have "d \<in> {0,1,2,3,4,5,6,7,8,9}" by auto
  then show ?thesis by (auto simp: digit_char_def)
qed

lemma nat_digits_are_digits:
  "\<forall>c \<in> set (nat_digits n). 0x30 \<le> c \<and> c \<le> 0x39"
proof (induction n rule: nat_digits.induct)
  case (1 n)
  show ?case
  proof (cases "n < 10")
    case True
    then show ?thesis using digit_char_is_digit[of n] by (simp add: nat_digits.simps[of n])
  next
    case False
    have "n mod 10 < 10" by simp
    from digit_char_is_digit[OF this] 1[OF False] False
    show ?thesis by (simp add: nat_digits.simps[of n])
  qed
qed

lemma digit_val_digit_char: "d < 10 \<Longrightarrow> digit_val (digit_char d) = d"
proof -
  assume "d < 10"
  then have "d \<in> {0,1,2,3,4,5,6,7,8,9}" by auto
  then show ?thesis by (auto simp: digit_val_def digit_char_def)
qed

lemma read_nat_snoc: "read_nat (xs @ [c]) = 10 * read_nat xs + digit_val c"
  by (simp add: read_nat_def)

lemma read_nat_nat_digits: "read_nat (nat_digits n) = n"
proof (induction n rule: nat_digits.induct)
  case (1 n)
  show ?case
  proof (cases "n < 10")
    case True
    then show ?thesis
      by (simp add: nat_digits.simps[of n] read_nat_def digit_val_digit_char)
  next
    case False
    have "n mod 10 < 10" by simp
    with 1[OF False] False show ?thesis
      by (simp add: nat_digits.simps[of n] read_nat_snoc digit_val_digit_char)
  qed
qed

text \<open>
  C8: jsonPathToString is a total function of its argument alone (and of the platform's
  printing of numbers beyond the safe integers, which no array index reaches); the absent
  and the empty path give \<open>$\<close>; a non-empty path whose numeric segments are array indices gives
  \<open>$\<close> followed by one bracketed group per segment in path order, for a numeric segment
  the decimal digits of the number and nothing else, for a string segment the text between
  double quotes; and
  \<open>["a", 0, "b"]\<close> gives \<open>$["a"][0]["b"]\<close>.
\<close>

theorem C8_jsonPathToString_format:
  "jsonPathToString other None = js ''$''
   \<and> jsonPathToString other (Some []) = js ''$''
   \<and> (p \<noteq> [] \<and> list_all index_segment_ok p \<longrightarrow>
        jsonPathToString other (Some p) = js ''$'' @ concat (map spec_group p))
   \<and> (\<forall>c \<in> set (nat_digits k). 0x30 \<le> c \<and> c \<le> 0x39)
   \<and> read_nat (nat_digits k) = k
   \<and> jsonPathToString other (Some [Key (js ''a''), Idx 0, Key (js ''b'')])
       = js ''$[\"a\"][0][\"b\"]''"
proof -
  have a: "jsonPathToString other None = js ''$''" "jsonPathToString other (Some []) = js ''$''"
    by (simp_all add: jsonPathToString_def)
  have b: "jsonPathToString other (Some p) = js ''$'' @ concat (map spec_group p)"
    if "p \<noteq> []" "list_all index_segment_ok p"
  proof -
    have "map (\<lambda>seg. js ''['' @ seg_text other seg @ js '']'') p = map spec_group p"
      using that(2) by (induction p) (simp_all add: spec_group_seg_text)
    then show ?thesis using jsonPathToString_groups[OF that(1)] by (simp only:)
  qed
  have c: "jsonPathToString other (Some [Key (js ''a''), Idx 0, Key (js ''b'')])
       = js ''$[\"a\"][0][\"b\"]''"
    by (simp add: jsonPathToString_def Number_toString_0) (simp add: js_def dquote_def)
  show ?thesis using a b c nat_digits_are_digits read_nat_nat_digits by blast
qed

theorem C8_jsonPathToString_format_witness:
  "jsonPathToString (\<lambda>_. []) (Some [Key (js ''customer''), Idx 0])
     = js ''$'' @ concat (map spec_group [Key (js ''customer''), Idx 0])
   \<and> list_all index_segment_ok [Key (js ''customer''), Idx 0]
   \<and> jsonPathToString (\<lambda>_. []) (Some [Key (js ''customer''), Idx 0]) = js ''$[\"customer\"][0]''"
proof -
  have ok: "list_all index_segment_ok [Key (js ''customer''), Idx 0]"
    by (simp add: is_array_index_def)
  have "jsonPathToString (\<lambda>_. []) (Some [Key (js ''customer''), Idx 0])
     = js ''$'' @ concat (map spec_group [Key (js ''customer''), Idx 0])"
    using C8_jsonPathToString_format[of "\<lambda>_. []" "[Key (js ''customer''), Idx 0]" 0] ok by simp
  moreover have "js ''$'' @ concat (map spec_group [Key (js ''customer''), Idx 0])
     = js ''$[\"customer\"][0]''"
    by (simp add: js_def dquote_def nat_digits.simps[of 0] digit_char_def)
  ultimately show ?thesis using ok by simp
qed

text \<open>
  C10: a string segment is rendered as a double quote, the segment's text as it is, and a
  double quote, whatever the text holds: wherever the segment stands in the path, its
  bracketed group is \<open>["\<close>, the text, \<open>"]\<close>. A segment holding a double quote and a bracket
  comes out with both unescaped.
\<close>

theorem C10_string_segment_unescaped:
  "jsonPathToString other (Some (pre @ Key s # post))
     = js ''$'' @ concat (map (\<lambda>seg. js ''['' @ seg_text other seg @ js '']'') pre)
         @ (js ''['' @ [dquote] @ s @ [dquote] @ js '']'')
         @ concat (map (\<lambda>seg. js ''['' @ seg_text other seg @ js '']'') post)
   \<and> seg_text other (Key s) = [dquote] @ s @ [dquote]
   \<and> jsonPathToString other (Some [Key (js ''a\"]'')]) = js ''$[\"a\"]\"]''"
proof -
  have "pre @ Key s # post \<noteq> []" by simp
  from jsonPathToString_groups[OF this]
  have "jsonPathToString other (Some (pre @ Key s # post))
     = js ''$'' @ concat (map (\<lambda>seg. js ''['' @ seg_text other seg @ js '']'') pre)
         @ (js ''['' @ [dquote] @ s @ [dquote] @ js '']'')
         @ concat (map (\<lambda>seg. js ''['' @ seg_text other seg @ js '']'') post)"
    by simp
  moreover have "jsonPathToString other (Some [Key (js ''a\"]'')]) = js ''$[\"a\"]\"]''"
    by (simp add: jsonPathToString_def js_def dquote_def)
  ultimately show ?thesis by simp
qed

text \<open>
  A consequence: two different paths can have the same text, since a key may itself hold
  \<open>"]["\<close>.
\<close>

lemma path_text_not_injective:
  "jsonPathToString other (Some [Key (js ''a\"][\"b'')]) = jsonPathToString other (Some [Key (js ''a''), Key (js ''b'')])
   \<and> [Key (js ''a\"][\"b'')] \<noteq> [Key (js ''a''), Key (js ''b'')]"
  by (simp add: jsonPathToString_def js_def dquote_def)

text \<open>
  The canonical text of an array index determines the index: two keys with the same index
  are the same key.
\<close>

lemma digit_char_digit_val: "is_digit c \<Longrightarrow> digit_char (digit_val c) = c"
proof -
  assume "is_digit c"
  then have "48 \<le> unat c" "unat c \<le> 57"
    by (simp_all add: is_digit_def word_le_nat_alt)
  then have "of_nat (48 + (unat c - 48)) = c" by simp
  then show ?thesis by (simp add: digit_char_def digit_val_def)
qed

lemma digit_val_less: "is_digit c \<Longrightarrow> digit_val c < 10"
proof -
  assume "is_digit c"
  then have "48 \<le> unat c" "unat c \<le> 57"
    by (simp_all add: is_digit_def word_le_nat_alt)
  then show ?thesis unfolding digit_val_def by arith
qed

lemma digit_val_zero: "is_digit c \<Longrightarrow> (digit_val c = 0) = (c = 0x30)"
  by (auto simp: is_digit_def digit_val_def word_le_nat_alt word_eq_iff_unsigned[where ?'a = nat])

lemma read_nat_pos:
  "xs \<noteq> [] \<Longrightarrow> list_all is_digit xs \<Longrightarrow> hd xs \<noteq> 0x30 \<Longrightarrow> 0 < read_nat xs"
proof (induction xs rule: rev_induct)
  case Nil
  then show ?case by simp
next
  case (snoc c xs)
  show ?case
  proof (cases "xs = []")
    case True
    with snoc.prems show ?thesis
      using digit_val_zero[of c] by (simp add: read_nat_def)
  next
    case False
    with snoc have "0 < read_nat xs" by simp
    then show ?thesis by (simp add: read_nat_snoc)
  qed
qed

lemma nat_digits_read_nat:
  "s \<noteq> [] \<Longrightarrow> list_all is_digit s \<Longrightarrow> hd s \<noteq> 0x30 \<or> length s = 1 \<Longrightarrow>
   nat_digits (read_nat s) = s"
proof (induction s rule: rev_induct)
  case Nil
  then show ?case by simp
next
  case (snoc c xs)
  from snoc.prems have c: "is_digit c" by simp
  show ?case
  proof (cases "xs = []")
    case True
    then show ?thesis
      using c digit_val_less[OF c] digit_char_digit_val[OF c]
      by (simp add: read_nat_def nat_digits.simps[of "digit_val c"])
  next
    case False
    with snoc.prems have h: "hd xs \<noteq> 0x30" "list_all is_digit xs" by auto
    from read_nat_pos[OF False h(2,1)] have pos: "0 < read_nat xs" .
    from snoc.IH[OF False h(2)] h(1) have ih: "nat_digits (read_nat xs) = xs" by simp
    have "\<not> 10 * read_nat xs + digit_val c < 10" using pos by simp
    moreover have "(10 * read_nat xs + digit_val c) div 10 = read_nat xs"
      using digit_val_less[OF c] by simp
    moreover have "(10 * read_nat xs + digit_val c) mod 10 = digit_val c"
      using digit_val_less[OF c] by simp
    ultimately show ?thesis
      using ih digit_char_digit_val[OF c]
      by (simp add: read_nat_snoc nat_digits.simps[of "10 * read_nat xs + digit_val c"])
  qed
qed

lemma array_index_of_key_digits:
  "array_index_of_key s = Some n \<Longrightarrow> s = nat_digits n"
  using nat_digits_read_nat[of s]
  by (auto simp: array_index_of_key_def split: if_splits)

lemma array_index_of_key_inj:
  "array_index_of_key s = Some n \<Longrightarrow> array_index_of_key t = Some n \<Longrightarrow> s = t"
  using array_index_of_key_digits by metis

section \<open>Row normalisation\<close>

lemma map_of_obj_replace:
  "has_own es k \<Longrightarrow> map_of (obj_replace k v es) = (map_of es)(k \<mapsto> v)"
  by (induction es) (auto simp: has_own_def fun_upd_twist)

lemma map_of_obj_insert_index:
  "\<not> has_own es k \<Longrightarrow> map_of (obj_insert_index n k v es) = (map_of es)(k \<mapsto> v)"
proof (induction es)
  case Nil
  then show ?case by simp
next
  case (Cons e es)
  obtain k' v' where e: "e = (k', v')" by (cases e)
  from Cons.prems e have ne: "k' \<noteq> k" and no: "\<not> has_own es k"
    by (auto simp: has_own_def split: if_splits)
  show ?case
    using Cons.IH[OF no] ne e by (auto simp: fun_upd_twist split: option.splits)
qed

lemma map_add_new:
  "m k = None \<Longrightarrow> [k \<mapsto> v] ++ m = m(k \<mapsto> v)"
  by (rule ext) (auto simp: map_add_def split: option.splits)

lemma map_of_obj_define:
  "map_of (obj_define k v es) = (map_of es)(k \<mapsto> v)"
proof (cases "has_own es k")
  case True
  then show ?thesis by (simp add: obj_define_def map_of_obj_replace)
next
  case False
  then have "map_of es k = None" by (simp add: has_own_def)
  with False show ?thesis
    by (simp add: obj_define_def map_of_obj_insert_index map_add_new split: option.splits)
qed

lemma has_own_obj_define:
  "has_own (obj_define k v es) k' = (k' = k \<or> has_own es k')"
  by (simp add: has_own_def map_of_obj_define)

lemma length_obj_replace: "length (obj_replace k v es) = length es"
  by (induction es) auto

lemma obj_replace_same:
  "map_of es k = Some v \<Longrightarrow> obj_replace k v es = es"
  by (induction es) (auto split: if_splits)

lemma key_truthy_lacks: "key_truthy (row_key r) = (\<not> lacks_key r)"
  by (simp add: key_truthy_def lacks_key_def split: option.splits)

lemma forEach_row_kept:
  "forEach_row obj r = (if row_kept r then assign_row obj r else obj)"
  by (simp add: forEach_row_def row_kept_def assign_row_def key_truthy_lacks)

lemma foldl_forEach_filter:
  "foldl forEach_row obj rows = foldl assign_row obj (filter row_kept rows)"
  by (induction rows arbitrary: obj) (simp_all add: forEach_row_kept)

lemma own_obj_assign_lookup:
  "k \<noteq> js ''__proto__'' \<Longrightarrow>
   map_of (own (obj_assign obj k' v)) k = (if k = k' then Some v else map_of (own obj) k)"
  by (auto simp: obj_assign_def map_of_obj_define)

lemma own_foldl_assign_lookup:
  "k \<noteq> js ''__proto__'' \<Longrightarrow>
   map_of (own (foldl assign_row obj rs)) k =
     (case map_of (rev (map row_entry rs)) k of Some v \<Rightarrow> Some v | None \<Rightarrow> map_of (own obj) k)"
proof (induction rs arbitrary: obj)
  case Nil
  then show ?case by simp
next
  case (Cons r rs)
  show ?case
    using Cons.IH[OF Cons.prems, of "assign_row obj r"] Cons.prems
    by (auto simp: assign_row_def row_entry_def own_obj_assign_lookup map_add_def
        split: option.splits)
qed

lemma has_own_obj_assign_empty:
  "k \<noteq> [] \<Longrightarrow> has_own (own (obj_assign obj k v)) [] = has_own (own obj) []"
  by (auto simp: obj_assign_def has_own_obj_define)

lemma forEach_row_no_empty_key:
  "has_own (own (forEach_row obj r)) [] = has_own (own obj) []"
  by (cases "row_key r")
     (auto simp: forEach_row_def key_truthy_def has_own_obj_assign_empty)

lemma foldl_forEach_no_empty_key:
  "has_own (own (foldl forEach_row obj rows)) [] = has_own (own obj) []"
  by (induction rows arbitrary: obj) (simp_all add: forEach_row_no_empty_key)

lemma forEach_row_blank: "forEach_row obj (blank_key r) = forEach_row obj r"
  by (simp add: forEach_row_def blank_key_def key_truthy_def)

lemma foldl_forEach_blank:
  "foldl forEach_row obj (map blank_key rows) = foldl forEach_row obj rows"
  by (induction rows arbitrary: obj) (simp_all add: forEach_row_blank)

lemma normalize_blank:
  "normalizeNodeData other (map blank_key rows) = normalizeNodeData other rows"
proof -
  have "\<not> key_truthy (row_key (blank_key r)) = (\<not> key_truthy (row_key r))" for r
    by (simp add: blank_key_def key_truthy_def)
  moreover have "row_value (blank_key r) = row_value r" for r
    by (simp add: blank_key_def)
  ultimately show ?thesis
    by (cases rows) (simp_all add: normalizeNodeData_def foldl_forEach_blank forEach_row_blank)
qed

lemma foldl_forEach_drop_empty:
  "foldl forEach_row obj (filter (\<lambda>r. row_key r \<noteq> Some []) rows) = foldl forEach_row obj rows"
  by (induction rows arbitrary: obj) (simp_all add: forEach_row_def key_truthy_def)

lemma normalize_single_lacks:
  "lacks_key r \<Longrightarrow> normalizeNodeData other [r] = ToString other (row_value r)"
  by (simp add: normalizeNodeData_def key_truthy_lacks)

subsection \<open>The object built is the ordered mapping\<close>

lemma first_keys_snoc:
  "first_keys (ents @ [(k, v)]) = (if k \<in> fst ` set ents then first_keys ents else first_keys ents @ [k])"
  by (simp add: first_keys_def)

lemma set_first_keys: "set (first_keys ents) = fst ` set ents"
  by (simp add: first_keys_def)

lemma distinct_first_keys: "distinct (first_keys ents)"
  by (simp add: first_keys_def)

lemma last_value_snoc:
  "last_value (ents @ [(k, v)]) k' = (if k' = k then v else last_value ents k')"
  by (simp add: last_value_def)

lemma set_key_order: "set (key_order ks) = set ks"
  by (auto simp: key_order_def)

lemma distinct_key_order: "distinct ks \<Longrightarrow> distinct (key_order ks)"
  by (auto simp: key_order_def)

lemma index_of_inj: "is_index_key a \<Longrightarrow> is_index_key b \<Longrightarrow> index_of a = index_of b \<Longrightarrow> a = b"
  by (auto simp: is_index_key_def index_of_def intro: array_index_of_key_inj)

lemma sort_key_snoc:
  assumes "inj_on f (set (xs @ [x]))"
  shows "sort_key f (xs @ [x]) = insort_key f x (sort_key f xs)"
proof -
  from assms have "inj_on f (set xs)" by (auto simp: inj_on_def)
  then have "sort_key f xs = fold (insort_key f) xs []" by (rule sort_key_conv_fold)
  moreover have "sort_key f (xs @ [x]) = fold (insort_key f) (xs @ [x]) []"
    using assms by (rule sort_key_conv_fold)
  ultimately show ?thesis by simp
qed

lemma key_order_snoc_other:
  "\<not> is_index_key k \<Longrightarrow> key_order (ks @ [k]) = key_order ks @ [k]"
  by (simp add: key_order_def)

lemma key_order_snoc_index:
  assumes "is_index_key k" "k \<notin> set ks"
  shows "key_order (ks @ [k])
     = insort_key index_of k (sort_key index_of (filter is_index_key ks)) @ filter (\<lambda>k. \<not> is_index_key k) ks"
proof -
  have "inj_on index_of (set (filter is_index_key ks @ [k]))"
    using assms(1) by (auto simp: inj_on_def dest: index_of_inj)
  from sort_key_snoc[OF this] assms(1) show ?thesis by (simp add: key_order_def)
qed

lemma obj_replace_map:
  "distinct L \<Longrightarrow>
   obj_replace k v (map (\<lambda>k'. (k', g k')) L) = map (\<lambda>k'. (k', if k' = k then v else g k')) L"
  by (induction L) auto

lemma obj_insert_index_map:
  assumes "array_index_of_key k = Some n" "k \<notin> set S" "k \<notin> set N"
    "\<forall>s \<in> set S. is_index_key s" "\<forall>s \<in> set N. \<not> is_index_key s"
  shows "obj_insert_index n k v (map (\<lambda>k'. (k', g k')) (S @ N))
     = map (\<lambda>k'. (k', if k' = k then v else g k')) (insort_key index_of k S @ N)"
  using assms(2,4)
proof (induction S)
  case Nil
  show ?case
  proof (cases N)
    case Nil
    then show ?thesis by simp
  next
    case (Cons a N')
    with assms(3,5) have "array_index_of_key a = None" "a \<noteq> k" "k \<notin> set N'"
      by (auto simp: is_index_key_def)
    with Cons show ?thesis by simp
  qed
next
  case (Cons s S)
  from Cons.prems obtain m where m: "array_index_of_key s = Some m" and ne: "s \<noteq> k"
    by (auto simp: is_index_key_def)
  have mn: "m \<noteq> n"
  proof
    assume "m = n"
    with m assms(1) have "s = k" by (auto intro: array_index_of_key_inj)
    with ne show False by simp
  qed
  have io: "index_of s = m" "index_of k = n" using m assms(1) by (simp_all add: index_of_def)
  from Cons have ih: "obj_insert_index n k v (map (\<lambda>k'. (k', g k')) (S @ N))
     = map (\<lambda>k'. (k', if k' = k then v else g k')) (insort_key index_of k S @ N)"
    by simp
  have rest: "map (\<lambda>k'. (k', g k')) (S @ N) = map (\<lambda>k'. (k', if k' = k then v else g k')) (S @ N)"
    using Cons.prems(1) assms(3) by auto
  show ?case
  proof (cases "m < n")
    case True
    then have "\<not> n \<le> m" by simp
    with True m ne io ih show ?thesis by simp
  next
    case False
    with mn have "n \<le> m" by simp
    with False m ne io rest show ?thesis by simp
  qed
qed

lemma has_own_map: "has_own (map (\<lambda>k'. (k', g k')) L) k = (k \<in> set L)"
  by (induction L) (auto simp: has_own_def)

lemma obj_define_ordered_mapping:
  "obj_define k v (ordered_mapping ents) = ordered_mapping (ents @ [(k, v)])"
proof (cases "k \<in> fst ` set ents")
  case True
  then have ho: "has_own (ordered_mapping ents) k"
    by (simp add: ordered_mapping_def has_own_map set_key_order set_first_keys)
  have d: "distinct (key_order (first_keys ents))"
    by (simp add: distinct_key_order distinct_first_keys)
  show ?thesis
    using True ho
    by (simp add: obj_define_def ordered_mapping_def first_keys_snoc obj_replace_map[OF d]
        last_value_snoc)
next
  case False
  then have nho: "\<not> has_own (ordered_mapping ents) k"
    by (simp add: ordered_mapping_def has_own_map set_key_order set_first_keys)
  have nin: "k \<notin> set (first_keys ents)" using False by (simp add: set_first_keys)
  show ?thesis
  proof (cases "array_index_of_key k")
    case None
    then have ni: "\<not> is_index_key k" by (simp add: is_index_key_def)
    have "k \<notin> set (key_order (first_keys ents))" using nin by (simp add: set_key_order)
    then have "map (\<lambda>k'. (k', last_value (ents @ [(k, v)]) k')) (key_order (first_keys ents))
       = map (\<lambda>k'. (k', last_value ents k')) (key_order (first_keys ents))"
      by (auto simp: last_value_snoc)
    then show ?thesis
      using False nho None
      by (simp add: obj_define_def ordered_mapping_def first_keys_snoc key_order_snoc_other[OF ni]
          last_value_snoc)
  next
    case (Some n)
    then have ik: "is_index_key k" by (simp add: is_index_key_def)
    let ?S = "sort_key index_of (filter is_index_key (first_keys ents))"
    let ?N = "filter (\<lambda>k. \<not> is_index_key k) (first_keys ents)"
    have fk: "first_keys (ents @ [(k, v)]) = first_keys ents @ [k]"
      using False by (simp add: first_keys_snoc)
    have ko: "key_order (first_keys ents @ [k]) = insort_key index_of k ?S @ ?N"
      by (rule key_order_snoc_index[OF ik nin])
    have om: "ordered_mapping ents = map (\<lambda>k'. (k', last_value ents k')) (?S @ ?N)"
      by (simp add: ordered_mapping_def key_order_def)
    have "obj_define k v (ordered_mapping ents)
            = obj_insert_index n k v (map (\<lambda>k'. (k', last_value ents k')) (?S @ ?N))"
      using nho Some by (simp only: obj_define_def om if_False option.case)
    also have "\<dots> = map (\<lambda>k'. (k', if k' = k then v else last_value ents k')) (insort_key index_of k ?S @ ?N)"
      by (rule obj_insert_index_map[OF Some]) (use nin in auto)
    also have "\<dots> = ordered_mapping (ents @ [(k, v)])"
      unfolding ordered_mapping_def fk ko by (simp add: last_value_snoc)
    finally show ?thesis .
  qed
qed

lemma ordered_mapping_Nil: "ordered_mapping [] = []"
  by (simp add: ordered_mapping_def key_order_def first_keys_def)

lemma foldl_define_ordered:
  "foldl (\<lambda>es e. obj_define (fst e) (snd e) es) [] ents = ordered_mapping ents"
proof (induction ents rule: rev_induct)
  case Nil
  show ?case by (simp add: ordered_mapping_Nil)
next
  case (snoc e ents)
  obtain k v where e: "e = (k, v)" by (cases e)
  show ?case using snoc by (simp add: e obj_define_ordered_mapping)
qed


lemma own_foldl_forEach:
  "(acc \<longrightarrow> \<not> has_own es (js ''__proto__'')) \<Longrightarrow>
   own (foldl forEach_row \<lparr> own = es, std_proto = acc \<rparr> rows)
     = foldl (\<lambda>es e. obj_define (fst e) (snd e) es) es (entered acc rows)"
proof (induction rows arbitrary: es acc)
  case Nil
  show ?case by simp
next
  case (Cons r rows)
  show ?case
  proof (cases "row_kept r")
    case False
    then show ?thesis using Cons by (simp add: forEach_row_kept)
  next
    case True
    then obtain k where k: "row_key r = Some k"
      by (cases "row_key r") (auto simp: row_kept_def lacks_key_def)
    show ?thesis
    proof (cases "acc \<and> k = js ''__proto__''")
      case True
      with Cons.prems have no: "\<not> has_own es (js ''__proto__'')" by simp
      have "forEach_row \<lparr> own = es, std_proto = acc \<rparr> r
              = \<lparr> own = es, std_proto = (row_value r \<noteq> PNull) \<rparr>"
        using \<open>row_kept r\<close> k True no
        by (simp add: forEach_row_kept assign_row_def obj_assign_def)
      moreover have "(row_value r \<noteq> PNull) \<longrightarrow> \<not> has_own es (js ''__proto__'')"
        using no by simp
      ultimately show ?thesis
        using Cons.IH[of "row_value r \<noteq> PNull" es] \<open>row_kept r\<close> k True by simp
    next
      case False
      have "forEach_row \<lparr> own = es, std_proto = acc \<rparr> r
              = \<lparr> own = obj_define k (row_value r) es, std_proto = acc \<rparr>"
        using \<open>row_kept r\<close> k False Cons.prems
        by (auto simp: forEach_row_kept assign_row_def obj_assign_def)
      moreover have "acc \<longrightarrow> \<not> has_own (obj_define k (row_value r) es) (js ''__proto__'')"
        using False Cons.prems by (auto simp: has_own_obj_define)
      ultimately show ?thesis
        using Cons.IH[of acc "obj_define k (row_value r) es"] \<open>row_kept r\<close> k False
        by (auto simp: row_entry_def)
    qed
  qed
qed

lemma built_mapping:
  "own (foldl forEach_row empty_obj rows) = ordered_mapping (entered True rows)"
proof -
  have "own (foldl forEach_row \<lparr> own = [], std_proto = True \<rparr> rows)
     = foldl (\<lambda>es e. obj_define (fst e) (snd e) es) [] (entered True rows)"
    by (rule own_foldl_forEach) (simp add: has_own_def)
  then show ?thesis by (simp add: empty_obj_def foldl_define_ordered)
qed

lemma normalize_ordered_mapping:
  "rows \<noteq> [] \<Longrightarrow> \<not> (length rows = 1 \<and> lacks_key (rows ! 0)) \<Longrightarrow>
   normalizeNodeData other rows = JSON_stringify_2 other (ordered_mapping (entered True rows))"
  by (auto simp: normalizeNodeData_def key_truthy_lacks built_mapping)

lemmas rows_eval = row_kept_def lacks_key_def row_entry_def ordered_mapping_def key_order_def
  first_keys_def last_value_def is_index_key_def index_of_def array_index_of_key_def
  is_digit_def read_nat_def digit_val_def js_def

lemmas print_eval = JSON_stringify_2_def json_member_def QuoteJSONString_def quote_unit_def
  is_high_surrogate_def is_low_surrogate_def js_def dquote_def newline_def

lemma mapping_b_10_2:
  "ordered_mapping (entered True [b_row, ten_row, two_row])
     = [(js ''2'', PString (js ''z'')), (js ''10'', PString (js ''y'')), (js ''b'', PString (js ''x''))]"
  by (simp add: b_row_def ten_row_def two_row_def rows_eval)

lemma mapping_name_proto:
  "ordered_mapping (entered True [name_row, proto_row]) = [(js ''name'', PString (js ''Ada''))]"
  by (simp add: name_row_def proto_row_def rows_eval)

lemma text_name_age:
  "JSON_stringify_2 (\<lambda>_. []) [(js ''name'', PString (js ''Ada'')), (js ''age'', PNumber (JFin 36))]
     = js ''{'' @ [newline] @ js ''  \"name\": \"Ada\",'' @ [newline]
       @ js ''  \"age\": 36'' @ [newline] @ js ''}''"
  by (simp add: print_eval Number_toString_def is_safe_integer_def
      int_toString_def nat_digits.simps[of 36] nat_digits.simps[of 3] digit_char_def)

lemma text_2_10_b:
  "JSON_stringify_2 (\<lambda>_. [])
       [(js ''2'', PString (js ''z'')), (js ''10'', PString (js ''y'')), (js ''b'', PString (js ''x''))]
     = js ''{'' @ [newline] @ js ''  \"2\": \"z\",'' @ [newline] @ js ''  \"10\": \"y\",'' @ [newline]
       @ js ''  \"b\": \"x\"'' @ [newline] @ js ''}''"
  by (simp add: print_eval)

lemma text_b_10_2:
  "JSON_stringify_2 (\<lambda>_. [])
       [(js ''b'', PString (js ''x'')), (js ''10'', PString (js ''y'')), (js ''2'', PString (js ''z''))]
     = js ''{'' @ [newline] @ js ''  \"b\": \"x\",'' @ [newline] @ js ''  \"10\": \"y\",'' @ [newline]
       @ js ''  \"2\": \"z\"'' @ [newline] @ js ''}''"
  by (simp add: print_eval)

lemma text_name:
  "JSON_stringify_2 (\<lambda>_. []) [(js ''name'', PString (js ''Ada''))]
     = js ''{'' @ [newline] @ js ''  \"name\": \"Ada\"'' @ [newline] @ js ''}''"
  by (simp add: print_eval)

lemma mapping_name_age:
  "ordered_mapping (entered True [name_row, tags_row, age_row])
     = [(js ''name'', PString (js ''Ada'')), (js ''age'', PNumber (JFin 36))]"
  by (simp add: name_row_def tags_row_def age_row_def rows_eval)

text \<open>
  C7 (as amended): normalizeNodeData gives \<open>{}\<close> for no rows; for exactly one row whose
  key is absent or empty it gives the value's own text (a string unquoted); for every other
  sequence it builds a key-to-value mapping from the rows, skipping the rows of type array
  or object, the rows whose key is absent or empty, and the rows whose key is
  \<open>__proto__\<close> (these are entered only once an earlier such row had the value null). Each
  key has the value of the last row entered under it; the keys that are array indices
  come first, by ascending index, then the other keys in the order of their first rows.
  The mapping is returned as JSON.stringify prints it with an indent of two spaces: \<open>{}\<close>
  when it is empty, otherwise one member a line, each indented by two spaces and written
  key, colon, space, value, between a line with the opening and one with the closing brace.
\<close>

theorem C7_normalizeNodeData_forms:
  "normalizeNodeData other [] = js ''{}''
   \<and> (lacks_key r \<longrightarrow> normalizeNodeData other [r] = ToString other (row_value r))
   \<and> ToString other (PString s) = s
   \<and> (rows \<noteq> [] \<and> \<not> (length rows = 1 \<and> lacks_key (rows ! 0)) \<longrightarrow>
        normalizeNodeData other rows
          = JSON_stringify_2 other (ordered_mapping (entered True rows)))
   \<and> JSON_stringify_2 other [] = js ''{}''
   \<and> (es \<noteq> [] \<longrightarrow>
        JSON_stringify_2 other es
          = js ''{'' @ [newline] @ js ''  ''
            @ join (js '','' @ [newline] @ js ''  '')
                (map (\<lambda>e. QuoteJSONString (fst e) @ js '': '' @ json_primitive other (snd e)) es)
            @ [newline] @ js ''}'')"
proof -
  have 1: "normalizeNodeData other [] = js ''{}''"
    by (simp add: normalizeNodeData_def)
  have 2: "JSON_stringify_2 other [] = js ''{}''"
    by (simp add: JSON_stringify_2_def)
  have 3: "JSON_stringify_2 other es
          = js ''{'' @ [newline] @ js ''  ''
            @ join (js '','' @ [newline] @ js ''  '')
                (map (\<lambda>e. QuoteJSONString (fst e) @ js '': '' @ json_primitive other (snd e)) es)
            @ [newline] @ js ''}''" if "es \<noteq> []"
  proof -
    have "json_member other = (\<lambda>e. QuoteJSONString (fst e) @ js '': '' @ json_primitive other (snd e))"
      by (rule ext) (simp add: json_member_def)
    with that show ?thesis by (simp add: JSON_stringify_2_def)
  qed
  show ?thesis
    using 1 2 3 normalize_single_lacks normalize_ordered_mapping by simp
qed

theorem C7_normalizeNodeData_forms_witness:
  "lacks_key hello_row
   \<and> normalizeNodeData (\<lambda>_. []) [hello_row] = js ''hello''
   \<and> normalizeNodeData (\<lambda>_. []) [name_row, tags_row, age_row]
       = js ''{'' @ [newline] @ js ''  \"name\": \"Ada\",'' @ [newline]
         @ js ''  \"age\": 36'' @ [newline] @ js ''}''
   \<and> ordered_mapping (entered True [b_row, ten_row, two_row])
       = [(js ''2'', PString (js ''z'')), (js ''10'', PString (js ''y'')), (js ''b'', PString (js ''x''))]
   \<and> normalizeNodeData (\<lambda>_. []) [b_row, ten_row, two_row]
       = js ''{'' @ [newline] @ js ''  \"2\": \"z\",'' @ [newline] @ js ''  \"10\": \"y\",'' @ [newline]
         @ js ''  \"b\": \"x\"'' @ [newline] @ js ''}''"
proof -
  have l: "lacks_key hello_row" by (simp add: lacks_key_def hello_row_def)
  have m: "[name_row, tags_row, age_row] \<noteq> []
     \<and> \<not> (length [name_row, tags_row, age_row] = 1 \<and> lacks_key ([name_row, tags_row, age_row] ! 0))"
    "[b_row, ten_row, two_row] \<noteq> []
     \<and> \<not> (length [b_row, ten_row, two_row] = 1 \<and> lacks_key ([b_row, ten_row, two_row] ! 0))"
    by simp_all
  note t = C7_normalizeNodeData_forms[of "\<lambda>_. []" hello_row "[]"
      "[name_row, tags_row, age_row]" "[]"]
  note u = C7_normalizeNodeData_forms[of "\<lambda>_. []" hello_row "[]"
      "[b_row, ten_row, two_row]" "[]"]
  have a: "normalizeNodeData (\<lambda>_. []) [hello_row] = js ''hello''"
    using t l by (simp add: hello_row_def)
  have b: "normalizeNodeData (\<lambda>_. []) [name_row, tags_row, age_row]
       = js ''{'' @ [newline] @ js ''  \"name\": \"Ada\",'' @ [newline]
         @ js ''  \"age\": 36'' @ [newline] @ js ''}''"
  proof -
    from t m(1) have "normalizeNodeData (\<lambda>_. []) [name_row, tags_row, age_row]
       = JSON_stringify_2 (\<lambda>_. []) (ordered_mapping (entered True [name_row, tags_row, age_row]))"
      by blast
    then show ?thesis by (simp only: mapping_name_age text_name_age)
  qed
  have c: "normalizeNodeData (\<lambda>_. []) [b_row, ten_row, two_row]
       = js ''{'' @ [newline] @ js ''  \"2\": \"z\",'' @ [newline] @ js ''  \"10\": \"y\",'' @ [newline]
         @ js ''  \"b\": \"x\"'' @ [newline] @ js ''}''"
  proof -
    from u m(2) have "normalizeNodeData (\<lambda>_. []) [b_row, ten_row, two_row]
       = JSON_stringify_2 (\<lambda>_. []) (ordered_mapping (entered True [b_row, ten_row, two_row]))"
      by blast
    then show ?thesis by (simp only: mapping_b_10_2 text_2_10_b)
  qed
  show ?thesis using l a b c mapping_b_10_2 by simp
qed

text \<open>
  C7 as stated fails in three ways. A single row whose key is the empty string has a key,
  so the claim sends it to the mapping form, while the source's \<open>!nodeRows[0].key\<close> is
  true for it and returns the bare value. The rows with the keys \<open>b\<close>, \<open>10\<close>, \<open>2\<close>, in this
  order, are printed in the order \<open>2\<close>, \<open>10\<close>, \<open>b\<close>: an object lists its array-index keys
  first, by ascending index, so the mapping is not in row order. And a row with the key
  \<open>__proto__\<close> is not skipped by the claim, but the assignment \<open>obj["__proto__"] = value\<close>
  runs the accessor the object inherits and creates no property, so the row is not
  printed.
\<close>

theorem C7_counterexample:
  "normalizeNodeData (\<lambda>_. []) [empty_key_row] = js ''hello''
   \<and> claimed_normalize (\<lambda>_. []) [empty_key_row]
       = js ''{'' @ [newline] @ js ''  \"\": \"hello\"'' @ [newline] @ js ''}''
   \<and> normalizeNodeData (\<lambda>_. []) [empty_key_row] \<noteq> claimed_normalize (\<lambda>_. []) [empty_key_row]
   \<and> normalizeNodeData (\<lambda>_. []) [b_row, ten_row, two_row]
       = js ''{'' @ [newline] @ js ''  \"2\": \"z\",'' @ [newline] @ js ''  \"10\": \"y\",'' @ [newline]
         @ js ''  \"b\": \"x\"'' @ [newline] @ js ''}''
   \<and> claimed_normalize (\<lambda>_. []) [b_row, ten_row, two_row]
       = js ''{'' @ [newline] @ js ''  \"b\": \"x\",'' @ [newline] @ js ''  \"10\": \"y\",'' @ [newline]
         @ js ''  \"2\": \"z\"'' @ [newline] @ js ''}''
   \<and> normalizeNodeData (\<lambda>_. []) [b_row, ten_row, two_row]
       \<noteq> claimed_normalize (\<lambda>_. []) [b_row, ten_row, two_row]
   \<and> normalizeNodeData (\<lambda>_. []) [name_row, proto_row]
       = js ''{'' @ [newline] @ js ''  \"name\": \"Ada\"'' @ [newline] @ js ''}''
   \<and> claimed_normalize (\<lambda>_. []) [name_row, proto_row]
       = js ''{'' @ [newline] @ js ''  \"name\": \"Ada\",'' @ [newline]
         @ js ''  \"__proto__\": \"p\"'' @ [newline] @ js ''}''
   \<and> normalizeNodeData (\<lambda>_. []) [name_row, proto_row]
       \<noteq> claimed_normalize (\<lambda>_. []) [name_row, proto_row]"
proof -
  have a: "normalizeNodeData (\<lambda>_. []) [empty_key_row] = js ''hello''"
    by (simp add: normalizeNodeData_def empty_key_row_def key_truthy_def)
  have b: "claimed_normalize (\<lambda>_. []) [empty_key_row]
       = js ''{'' @ [newline] @ js ''  \"\": \"hello\"'' @ [newline] @ js ''}''"
    by (simp add: claimed_normalize_def empty_key_row_def claimed_mapping_def row_entry_def
        first_keys_def last_value_def print_eval)
  have c: "normalizeNodeData (\<lambda>_. []) [b_row, ten_row, two_row]
       = js ''{'' @ [newline] @ js ''  \"2\": \"z\",'' @ [newline] @ js ''  \"10\": \"y\",'' @ [newline]
         @ js ''  \"b\": \"x\"'' @ [newline] @ js ''}''"
  proof -
    have "normalizeNodeData (\<lambda>_. []) [b_row, ten_row, two_row]
       = JSON_stringify_2 (\<lambda>_. []) (ordered_mapping (entered True [b_row, ten_row, two_row]))"
      by (rule normalize_ordered_mapping) simp_all
    then show ?thesis by (simp only: mapping_b_10_2 text_2_10_b)
  qed
  have d: "claimed_normalize (\<lambda>_. []) [b_row, ten_row, two_row]
       = js ''{'' @ [newline] @ js ''  \"b\": \"x\",'' @ [newline] @ js ''  \"10\": \"y\",'' @ [newline]
         @ js ''  \"2\": \"z\"'' @ [newline] @ js ''}''"
    by (simp add: claimed_normalize_def b_row_def ten_row_def two_row_def claimed_mapping_def
        row_entry_def first_keys_def last_value_def print_eval)
  have e: "normalizeNodeData (\<lambda>_. []) [name_row, proto_row]
       = js ''{'' @ [newline] @ js ''  \"name\": \"Ada\"'' @ [newline] @ js ''}''"
  proof -
    have "normalizeNodeData (\<lambda>_. []) [name_row, proto_row]
       = JSON_stringify_2 (\<lambda>_. []) (ordered_mapping (entered True [name_row, proto_row]))"
      by (rule normalize_ordered_mapping) simp_all
    then show ?thesis by (simp only: mapping_name_proto text_name)
  qed
  have f: "claimed_normalize (\<lambda>_. []) [name_row, proto_row]
       = js ''{'' @ [newline] @ js ''  \"name\": \"Ada\",'' @ [newline]
         @ js ''  \"__proto__\": \"p\"'' @ [newline] @ js ''}''"
    by (simp add: claimed_normalize_def name_row_def proto_row_def claimed_mapping_def
        row_entry_def first_keys_def last_value_def print_eval)
  show ?thesis unfolding a b c d e f by (simp add: js_def newline_def)
qed

subsection \<open>Empty keys\<close>

lemma quote_unit_hd: "quote_unit c \<noteq> [] \<and> hd (quote_unit c) \<noteq> dquote"
  by (simp add: quote_unit_def UnicodeEscape_def backslash_def dquote_def)

lemma quote_units_hd: "k \<noteq> [] \<Longrightarrow> quote_units k \<noteq> [] \<and> hd (quote_units k) \<noteq> dquote"
proof (cases k rule: quote_units.cases)
  case 1
  assume "k \<noteq> []"
  with 1 show ?thesis by simp
next
  case (2 c)
  then show ?thesis by (simp add: quote_unit_hd)
next
  case (3 c d cs)
  show ?thesis
  proof (cases "is_high_surrogate c \<and> is_low_surrogate d")
    case True
    then have "c \<noteq> dquote" by (auto simp: is_high_surrogate_def dquote_def)
    with 3 True show ?thesis by simp
  next
    case False
    then have "quote_units k = quote_unit c @ quote_units (d # cs)" using 3 by auto
    then show ?thesis using quote_unit_hd[of c] by (simp add: hd_append)
  qed
qed

lemma member_key_not_empty:
  "fst e \<noteq> [] \<Longrightarrow> take 2 (json_member other e) \<noteq> [dquote, dquote]"
proof -
  assume "fst e \<noteq> []"
  from quote_units_hd[OF this] obtain c cs where q: "quote_units (fst e) = c # cs" "c \<noteq> dquote"
    by (cases "quote_units (fst e)") auto
  then show ?thesis by (simp add: json_member_def QuoteJSONString_def)
qed

lemma built_no_empty_key:
  "\<not> has_own (own (foldl forEach_row empty_obj rows)) []"
proof -
  have "has_own (own (foldl forEach_row empty_obj rows)) [] = has_own (own empty_obj) []"
    by (rule foldl_forEach_no_empty_key)
  then show ?thesis by (simp add: empty_obj_def has_own_def)
qed

lemma built_keys_not_empty:
  "e \<in> set (own (foldl forEach_row empty_obj rows)) \<Longrightarrow> fst e \<noteq> []"
proof
  assume e: "e \<in> set (own (foldl forEach_row empty_obj rows))" and "fst e = []"
  then have "[] \<in> fst ` set (own (foldl forEach_row empty_obj rows))" by force
  then have "has_own (own (foldl forEach_row empty_obj rows)) []"
    by (simp add: has_own_def map_of_eq_None_iff)
  with built_no_empty_key show False by simp
qed

lemma normalize_prints_built:
  "rows \<noteq> [] \<Longrightarrow> \<not> (length rows = 1 \<and> lacks_key (rows ! 0)) \<Longrightarrow>
   normalizeNodeData other rows = JSON_stringify_2 other (own (foldl forEach_row empty_obj rows))"
  by (auto simp: normalizeNodeData_def key_truthy_lacks)

text \<open>
  C9: an empty-string key is treated as an absent key. A single row with the key \<open>""\<close> is
  rendered as its bare value; replacing every empty key by an absent one changes nothing
  in the output. In the mapping form the output is the print of the object the rows build;
  the rows with an empty key can be removed beforehand without changing that object; the
  object never has \<open>""\<close> among its keys; and no member of the print begins with the empty
  quoted key \<open>""\<close>.
\<close>

theorem C9_empty_key_as_absent:
  "(row_key r = Some [] \<longrightarrow> normalizeNodeData other [r] = ToString other (row_value r))
   \<and> normalizeNodeData other (map blank_key rows) = normalizeNodeData other rows
   \<and> (rows \<noteq> [] \<and> \<not> (length rows = 1 \<and> lacks_key (rows ! 0)) \<longrightarrow>
        normalizeNodeData other rows
          = JSON_stringify_2 other (own (foldl forEach_row empty_obj rows)))
   \<and> foldl forEach_row empty_obj (filter (\<lambda>r. row_key r \<noteq> Some []) rows)
       = foldl forEach_row empty_obj rows
   \<and> \<not> has_own (own (foldl forEach_row empty_obj rows)) []
   \<and> list_all (\<lambda>e. fst e \<noteq> [] \<and> take 2 (json_member other e) \<noteq> [dquote, dquote])
        (own (foldl forEach_row empty_obj rows))
   \<and> QuoteJSONString [] = [dquote, dquote]"
proof -
  have "normalizeNodeData other [r] = ToString other (row_value r)" if "row_key r = Some []"
    using that by (simp add: normalize_single_lacks lacks_key_def)
  moreover have "list_all (\<lambda>e. fst e \<noteq> [] \<and> take 2 (json_member other e) \<noteq> [dquote, dquote])
        (own (foldl forEach_row empty_obj rows))"
    unfolding list_all_iff using built_keys_not_empty member_key_not_empty by blast
  moreover have "QuoteJSONString [] = [dquote, dquote]"
    by (simp add: QuoteJSONString_def)
  ultimately show ?thesis
    using normalize_prints_built built_no_empty_key
    by (simp add: normalize_blank foldl_forEach_drop_empty)
qed

theorem C9_empty_key_as_absent_witness:
  "row_key empty_key_row = Some []
   \<and> normalizeNodeData (\<lambda>_. []) [empty_key_row] = js ''hello''
   \<and> blank_key empty_key_row = hello_row
   \<and> normalizeNodeData (\<lambda>_. []) [name_row, empty_key_row] = normalizeNodeData (\<lambda>_. []) [name_row, hello_row]
   \<and> own (foldl forEach_row empty_obj [name_row, empty_key_row]) = [(js ''name'', PString (js ''Ada''))]
   \<and> normalizeNodeData (\<lambda>_. []) [name_row, empty_key_row]
       = js ''{'' @ [newline] @ js ''  \"name\": \"Ada\"'' @ [newline] @ js ''}''"
proof -
  note t = C9_empty_key_as_absent[of empty_key_row "\<lambda>_. []" "[name_row, empty_key_row]"]
  have k: "row_key empty_key_row = Some []" by (simp add: empty_key_row_def)
  have a: "normalizeNodeData (\<lambda>_. []) [empty_key_row] = js ''hello''"
    using t k by (simp add: empty_key_row_def)
  have b: "blank_key empty_key_row = hello_row" "blank_key name_row = name_row"
    by (simp_all add: blank_key_def empty_key_row_def hello_row_def name_row_def js_def)
  have c: "normalizeNodeData (\<lambda>_. []) [name_row, empty_key_row] = normalizeNodeData (\<lambda>_. []) [name_row, hello_row]"
    using t b by simp
  have d: "own (foldl forEach_row empty_obj [name_row, empty_key_row]) = [(js ''name'', PString (js ''Ada''))]"
    by (simp add: forEach_row_def key_truthy_def name_row_def empty_key_row_def obj_assign_def
        empty_obj_def obj_define_def has_own_def array_index_of_key_def is_digit_def js_def)
  have m: "[name_row, empty_key_row] \<noteq> []
     \<and> \<not> (length [name_row, empty_key_row] = 1 \<and> lacks_key ([name_row, empty_key_row] ! 0))"
    by simp
  have e: "normalizeNodeData (\<lambda>_. []) [name_row, empty_key_row]
       = js ''{'' @ [newline] @ js ''  \"name\": \"Ada\"'' @ [newline] @ js ''}''"
  proof -
    from t m have "normalizeNodeData (\<lambda>_. []) [name_row, empty_key_row]
       = JSON_stringify_2 (\<lambda>_. []) (own (foldl forEach_row empty_obj [name_row, empty_key_row]))"
      by blast
    then show ?thesis by (simp only: d text_name)
  qed
  show ?thesis using k a b c d e by simp
qed

section \<open>Updating a document at a path\<close>

lemma updateJsonAtPath_array:
  "updateJsonAtPath other (JArray xs ps) (first # rest) v =
     (if in_bounds first (length xs)
      then (case array_set JUndefined other xs [] first
                   (updateJsonAtPath other (array_get other xs [] first) rest v) of
              (ys, qs) \<Rightarrow> JArray ys qs)
      else JArray xs [])"
  by (cases rest) simp_all

lemma updateJsonAtPath_other:
  "\<forall>xs ps. json \<noteq> JArray xs ps \<Longrightarrow>
   updateJsonAtPath other json (first # rest) v =
     JObject (obj_set (spread_props json) (prop_key other first)
                (updateJsonAtPath other (obj_get (spread_props json) (prop_key other first)) rest v))"
  by (cases json; cases rest) simp_all

declare updateJsonAtPath.simps(2) [simp del]

subsection \<open>The bounds test on a string segment\<close>

lemma is_digit_not_whitespace: "is_digit c \<Longrightarrow> \<not> is_whitespace c"
  by (auto simp: is_digit_def is_whitespace_def word_le_nat_alt)

lemma dropWhile_keep: "xs \<noteq> [] \<Longrightarrow> \<not> P (hd xs) \<Longrightarrow> dropWhile P xs = xs"
  by (cases xs) simp_all

lemma trim_digits:
  assumes "list_all is_digit s"
  shows "trim s = s"
proof (cases "s = []")
  case True
  then show ?thesis by (simp add: trim_def)
next
  case False
  have "is_digit (hd s)" using assms False by (cases s) simp_all
  then have 1: "dropWhile is_whitespace s = s"
    using False by (simp add: dropWhile_keep is_digit_not_whitespace)
  have "last s \<in> set s" using False by simp
  then have "is_digit (last s)" using assms by (simp add: list_all_iff)
  moreover have "hd (rev s) = last s" using False by (simp only: hd_rev)
  ultimately have 2: "dropWhile is_whitespace (rev s) = rev s"
    using False by (simp add: dropWhile_keep is_digit_not_whitespace)
  show ?thesis by (simp add: trim_def 1 2)
qed

lemma NonDecimal_canonical:
  assumes "list_all is_digit s" "hd s \<noteq> 0x30 \<or> length s = 1"
  shows "NonDecimalIntegerLiteral s = None"
proof (cases s)
  case Nil
  then show ?thesis by (simp add: NonDecimalIntegerLiteral_def)
next
  case (Cons z r)
  show ?thesis
  proof (cases r)
    case Nil
    with Cons show ?thesis by (simp add: NonDecimalIntegerLiteral_def)
  next
    case (Cons x ds)
    with \<open>s = z # r\<close> assms(2) have "z \<noteq> 0x30" by simp
    with Cons \<open>s = z # r\<close> show ?thesis by (simp add: NonDecimalIntegerLiteral_def)
  qed
qed

lemma StrUnsigned_digits:
  assumes "s \<noteq> []" "list_all is_digit s" "read_nat s < 2 ^ 32 - 1"
  shows "StrUnsignedDecimalLiteral s = Some (JFin (of_nat (read_nat s)))"
proof -
  have "is_digit (hd s)" using assms(1,2) by (cases s) simp_all
  moreover have "\<not> is_digit (hd (js ''Infinity''))" by (simp add: js_def is_digit_def)
  ultimately have ninf: "s \<noteq> js ''Infinity''" by auto
  have tw: "takeWhile is_digit s = s" "dropWhile is_digit s = []"
    using assms(2) by (simp_all add: list_all_iff)
  have "(of_nat (read_nat s) :: rat) < 2 ^ 32"
  proof -
    have "read_nat s < 2 ^ 32" using assms(3) by simp
    then have "(of_nat (read_nat s) :: rat) < of_nat (2 ^ 32)" by (simp only: of_nat_less_iff)
    then show ?thesis by simp
  qed
  moreover have "(2::rat) ^ 32 < 2 ^ 1024 - 2 ^ 970" by simp
  moreover have "(0::rat) \<le> of_nat (read_nat s)" by simp
  ultimately have "to_Number (of_nat (read_nat s)) = JFin (of_nat (read_nat s))"
    by (simp add: to_Number_def)
  then show ?thesis
    using ninf assms(1)
    by (simp add: StrUnsignedDecimalLiteral_def tw exponent_part_def pow10_def read_nat_def)
qed

lemma StringToNumber_canonical:
  assumes "array_index_of_key s = Some i"
  shows "StringToNumber s = JFin (of_nat i)"
proof -
  from assms have a: "s \<noteq> []" "list_all is_digit s" "hd s \<noteq> 0x30 \<or> length s = 1"
    "read_nat s < 2 ^ 32 - 1" "read_nat s = i"
    by (auto simp: array_index_of_key_def split: if_splits)
  have d: "is_digit (hd s)" using a(1,2) by (cases s) simp_all
  then have "hd s \<noteq> 0x2B" "hd s \<noteq> 0x2D" by (auto simp: is_digit_def)
  then have "StrDecimalLiteral s = StrUnsignedDecimalLiteral s"
    using a(1) by (cases s) (simp_all add: StrDecimalLiteral_def)
  then show ?thesis
    using a by (simp add: StringToNumber_def trim_digits NonDecimal_canonical StrUnsigned_digits)
qed

lemma in_bounds_canonical:
  "array_index_of_key s = Some i \<Longrightarrow> in_bounds (Key s) len = (i < len)"
  by (simp add: StringToNumber_canonical)

lemma in_bounds_element:
  "in_bounds seg len \<Longrightarrow> element_index seg = Some i \<Longrightarrow> i < len"
proof (cases seg)
  case (Idx n)
  assume "in_bounds seg len" "element_index seg = Some i"
  with Idx show ?thesis by (auto split: if_splits)
next
  case (Key s)
  assume "in_bounds seg len" "element_index seg = Some i"
  with Key in_bounds_canonical[of s i len] show ?thesis by simp
qed




subsection \<open>The array branch\<close>

lemma array_set_element:
  "element_index seg = Some i \<Longrightarrow> i < length xs \<Longrightarrow>
   array_set hole other xs ps seg v = (xs[i := v], ps)"
  by (simp add: array_set_def)

lemma array_get_element:
  "element_index seg = Some i \<Longrightarrow> i < length xs \<Longrightarrow> array_get other xs ps seg = xs ! i"
  by (simp add: array_get_def)



lemma updateJsonAtPath_array_element:
  assumes "in_bounds first (length xs)" "element_index first = Some i"
  shows "updateJsonAtPath other (JArray xs ps) (first # rest) v
     = JArray (xs[i := updateJsonAtPath other (xs ! i) rest v]) []"
proof -
  from in_bounds_element[OF assms] have i: "i < length xs" .
  show ?thesis
    unfolding updateJsonAtPath_array
    by (simp add: assms(1) array_set_element[OF assms(2) i] array_get_element[OF assms(2) i])
qed

lemma updateJsonAtPath_array_idx:
  "0 \<le> n \<Longrightarrow> n < int (length xs) \<Longrightarrow>
   updateJsonAtPath other (JArray xs ps) (Idx n # rest) v
     = JArray (xs[nat n := updateJsonAtPath other (xs ! nat n) rest v]) []"
  by (rule updateJsonAtPath_array_element) simp_all





text \<open>
  The test is what keeps the array from growing: the assignment alone, on a position
  beyond the length, makes the array longer.
\<close>

lemma array_set_grows:
  "array_set hole other [x, y] [] (Idx 5) v = ([x, y, hole, hole, hole, v], [])"
  by (simp add: array_set_def numeral_3_eq_3)

subsection \<open>The object branch\<close>

lemma obj_set_same:
  "map_of es k = Some v \<Longrightarrow> obj_set es k v = es"
  by (simp add: obj_set_def obj_define_def has_own_def obj_replace_same)

lemma roundtrip:
  "value_at D P = Some v \<Longrightarrow> updateJsonAtPath other D P v = D"
proof (induction D P arbitrary: v rule: value_at.induct)
  case (1 d)
  then show ?case by simp
next
  case (2 xs n rest)
  then show ?case
    by (simp add: updateJsonAtPath_array_idx split: if_splits)
next
  case (3 es k rest)
  then obtain w where w: "map_of es k = Some w" "value_at w rest = Some v"
    by (auto split: option.splits)
  from 3(1)[OF w] have "updateJsonAtPath other w rest v = w" .
  then show ?case
    using w by (simp add: updateJsonAtPath_other obj_get_def obj_set_same)
qed simp_all



lemma map_fst_obj_replace: "map fst (obj_replace k v es) = map fst es"
  by (induction es) auto



lemma scalar_becomes_object:
  assumes "\<forall>xs ps. json \<noteq> JArray xs ps" "spread_props json = []"
    "prop_key other first \<noteq> js ''__proto__''"
  shows "\<exists>es'. updateJsonAtPath other json (first # rest) v = JObject es'
        \<and> map_of es' = [prop_key other first \<mapsto> updateJsonAtPath other JUndefined rest v]"
  unfolding updateJsonAtPath_other[OF assms(1)]
  using assms(2,3) by (simp add: obj_set_def obj_get_def map_of_obj_define)


lemma scenario_items_replaced:
  "updateJsonAtPath other doc_items [Key (js ''items''), Idx 1] (num 99)
     = JObject [(js ''items'', JArray [num 1, num 99, num 3] [])]"
proof -
  have "updateJsonAtPath other (JArray [num 1, num 2, num 3] []) [Idx 1] (num 99)
          = JArray [num 1, num 99, num 3] []"
    by (simp add: updateJsonAtPath_array_idx)
  then show ?thesis
    by (simp add: doc_items_def updateJsonAtPath_other obj_get_def obj_set_def obj_define_def
        has_own_def js_def)
qed








text \<open>
  C4: writing back the value a valid path points at gives a document equal to the
  original; the empty path returns the new value itself, so \<open>{"x":1}\<close>, \<open>[]\<close>, 42 gives 42.
\<close>

theorem C4_roundtrip:
  "(value_at D P = Some v \<longrightarrow> updateJsonAtPath other D P v = D)
   \<and> updateJsonAtPath other D [] V = V
   \<and> updateJsonAtPath other (JObject [(js ''x'', num 1)]) [] (num 42) = num 42"
  using roundtrip by simp

theorem C4_roundtrip_witness:
  "value_at doc_items [Key (js ''items''), Idx 1] = Some (num 2)
   \<and> updateJsonAtPath (\<lambda>_. []) doc_items [Key (js ''items''), Idx 1] (num 2) = doc_items"
proof -
  have v: "value_at doc_items [Key (js ''items''), Idx 1] = Some (num 2)"
    by (simp add: doc_items_def)
  then show ?thesis
    using C4_roundtrip[of doc_items "[Key (js ''items''), Idx 1]" "num 2" "\<lambda>_. []"] by simp
qed

section \<open>Coercion of edited text\<close>

lemmas lex_eval = js_def is_json_ws_def next_token_def strip_prefix_def is_digit_def
  lex_number_def lex_exponent_def read_nat_def digit_val_def pow10_def to_Number_def
  simple_escape_def hex4_def hex_val_def Let_def

lemmas parse_eval = JSON_parse_def parse_tokens_def obj_define_def has_own_def
  array_index_of_key_def

lemma lex_5: "lex (js ''5'') = Some [TNum (JFin 5)]"
  by (simp add: lex_eval)

lemma lex_q5: "lex (js ''\"5\"'') = Some [TStr (js ''5'')]"
  by (simp add: lex_eval)

lemma lex_true: "lex (js ''true'') = Some [TTrue]"
  by (simp add: lex_eval)

lemma lex_banana: "lex (js ''banana'') = None"
  by (simp add: lex_eval)

lemma lex_obj: "lex (js ''{\"a\":1}'') = Some [TLBrace, TStr (js ''a''), TColon, TNum (JFin 1), TRBrace]"
  by (simp add: lex_eval)

lemma parse_obj: "JSON_parse (js ''{\"a\":1}'') = Inr (JObject [(js ''a'', JNumber (JFin 1))])"
  by (simp add: lex_obj parse_eval is_digit_def)

lemma lex_Infinity: "lex (js ''Infinity'') = None"
  by (simp add: lex_eval)

lemma lex_bad_quoted: "lex (js ''\"a\"b\"'') = None"
  by (simp add: lex_eval)

lemma trim_banana: "trim (js ''banana'') = js ''banana''"
  by (simp add: trim_def js_def is_whitespace_def)

lemma StringToNumber_banana: "StringToNumber (js ''banana'') = JNaN"
  by (simp add: StringToNumber_def trim_def is_whitespace_def NonDecimalIntegerLiteral_def
      StrDecimalLiteral_def StrUnsignedDecimalLiteral_def js_def is_digit_def)

lemma StringToNumber_Infinity: "StringToNumber (js ''Infinity'') = JPosInf"
  by (simp add: StringToNumber_def trim_def is_whitespace_def NonDecimalIntegerLiteral_def
      StrDecimalLiteral_def StrUnsignedDecimalLiteral_def js_def)

lemma handleSave_parsed:
  "JSON_parse text = Inr v \<Longrightarrow> handleSave_newValue text = Inr v"
  by (simp add: handleSave_newValue_def)

lemma handleSave_fallback:
  "JSON_parse text = Inl e \<Longrightarrow>
   handleSave_newValue text =
     (if quoted (trim text) then JSON_parse (trim text)
      else if trim text = js ''null'' then Inr JNull
      else if trim text = js ''true'' then Inr (JBool True)
      else if trim text = js ''false'' then Inr (JBool False)
      else if \<not> isNaN (StringToNumber (trim text)) \<and> trim text \<noteq> []
        then Inr (JNumber (StringToNumber (trim text)))
      else Inr (JString (trim text)))"
  by (simp add: handleSave_newValue_def quoted_def Let_def)

lemma JSON_parse_5: "JSON_parse (js ''5'') = Inr (JNumber (JFin 5))"
  by (simp add: lex_5 parse_eval)

lemma JSON_parse_q5: "JSON_parse (js ''\"5\"'') = Inr (JString (js ''5''))"
  by (simp add: lex_q5 parse_eval)

lemma JSON_parse_true: "JSON_parse (js ''true'') = Inr (JBool True)"
  by (simp add: lex_true parse_eval)

lemma JSON_parse_banana: "JSON_parse (js ''banana'') = Inl SyntaxError"
  by (simp add: lex_banana parse_eval)

lemma JSON_parse_Infinity: "JSON_parse (js ''Infinity'') = Inl SyntaxError"
  by (simp add: lex_Infinity parse_eval)

lemma JSON_parse_bad_quoted: "JSON_parse (js ''\"a\"b\"'') = Inl SyntaxError"
  by (simp add: lex_bad_quoted parse_eval)

lemma trim_Infinity: "trim (js ''Infinity'') = js ''Infinity''"
  by (simp add: trim_def js_def is_whitespace_def)

lemma trim_bad_quoted: "trim (js ''\"a\"b\"'') = js ''\"a\"b\"''"
  by (simp add: trim_def js_def is_whitespace_def)

lemma not_quoted_banana: "\<not> quoted (js ''banana'')"
  by (simp add: quoted_def startsWith_def endsWith_def js_def dquote_def)

lemma not_quoted_Infinity: "\<not> quoted (js ''Infinity'')"
  by (simp add: quoted_def startsWith_def endsWith_def js_def dquote_def)

lemma quoted_bad: "quoted (js ''\"a\"b\"'')"
  by (simp add: quoted_def startsWith_def endsWith_def js_def dquote_def)

lemma banana_not_literal:
  "js ''banana'' \<noteq> js ''null''" "js ''banana'' \<noteq> js ''true''" "js ''banana'' \<noteq> js ''false''"
  by (simp_all add: js_def)

lemma plus5_facts:
  "JSON_parse plus5 = Inl SyntaxError" "trim plus5 = plus5" "\<not> quoted plus5"
  "plus5 \<noteq> js ''null''" "plus5 \<noteq> js ''true''" "plus5 \<noteq> js ''false''" "plus5 \<noteq> []"
  "StringToNumber plus5 = JFin 5"
        apply (simp add: plus5_def JSON_parse_def lex_eval)
       apply (simp add: plus5_def trim_def js_def is_whitespace_def)
      apply (simp add: plus5_def quoted_def startsWith_def endsWith_def js_def dquote_def)
     apply (simp add: plus5_def js_def)
    apply (simp add: plus5_def js_def)
   apply (simp add: plus5_def js_def)
   apply (simp add: plus5_def js_def)
  apply (simp add: plus5_def StringToNumber_def trim_def is_whitespace_def
      NonDecimalIntegerLiteral_def StrDecimalLiteral_def StrUnsignedDecimalLiteral_def
      exponent_part_def pow10_def to_Number_def read_nat_def digit_val_def js_def is_digit_def)
  done

text \<open>
  C5: the full JSON parse comes first and its value is returned as it is; only when it
  fails does the ladder run, in this order: a quoted text is parsed as JSON; then the
  texts \<open>null\<close>, \<open>true\<close> and \<open>false\<close> give their values; then a non-empty text that
  \<open>Number\<close> does not turn into NaN gives that Number; and only then is the trimmed text
  itself the value, a String. So \<open>"5"\<close> gives the String 5, \<open>5\<close> the Number 5, \<open>true\<close> the
  Boolean, \<open>banana\<close> the String banana and \<open>{"a":1}\<close> the Object with a = 1; and \<open>+5\<close>, which
  is no JSON text, gives the Number 5 on the number rung, not the String.
\<close>

theorem C5_coercion_precedence:
  "(JSON_parse text = Inr v \<longrightarrow> handleSave_newValue text = Inr v)
   \<and> (JSON_parse text = Inl e \<longrightarrow>
        (quoted (trim text) \<longrightarrow> handleSave_newValue text = JSON_parse (trim text))
      \<and> (\<not> quoted (trim text) \<and> trim text = js ''null'' \<longrightarrow> handleSave_newValue text = Inr JNull)
      \<and> (\<not> quoted (trim text) \<and> trim text = js ''true'' \<longrightarrow>
            handleSave_newValue text = Inr (JBool True))
      \<and> (\<not> quoted (trim text) \<and> trim text = js ''false'' \<longrightarrow>
            handleSave_newValue text = Inr (JBool False))
      \<and> (\<not> quoted (trim text) \<and> trim text \<noteq> js ''null'' \<and> trim text \<noteq> js ''true''
            \<and> trim text \<noteq> js ''false''
            \<and> StringToNumber (trim text) \<noteq> JNaN \<and> trim text \<noteq> [] \<longrightarrow>
            handleSave_newValue text = Inr (JNumber (StringToNumber (trim text))))
      \<and> (\<not> quoted (trim text) \<and> trim text \<noteq> js ''null'' \<and> trim text \<noteq> js ''true''
            \<and> trim text \<noteq> js ''false''
            \<and> (StringToNumber (trim text) = JNaN \<or> trim text = []) \<longrightarrow>
            handleSave_newValue text = Inr (JString (trim text))))
   \<and> handleSave_newValue (js ''\"5\"'') = Inr (JString (js ''5''))
   \<and> handleSave_newValue (js ''5'') = Inr (JNumber (JFin 5))
   \<and> handleSave_newValue (js ''true'') = Inr (JBool True)
   \<and> handleSave_newValue (js ''banana'') = Inr (JString (js ''banana''))
   \<and> handleSave_newValue (js ''{\"a\":1}'') = Inr (JObject [(js ''a'', JNumber (JFin 1))])
   \<and> handleSave_newValue plus5 = Inr (JNumber (JFin 5))"
proof -
  have 1: "JSON_parse text = Inr v \<longrightarrow> handleSave_newValue text = Inr v"
    by (simp add: handleSave_parsed)
  have 2: "JSON_parse text = Inl e \<longrightarrow>
        (quoted (trim text) \<longrightarrow> handleSave_newValue text = JSON_parse (trim text))
      \<and> (\<not> quoted (trim text) \<and> trim text = js ''null'' \<longrightarrow> handleSave_newValue text = Inr JNull)
      \<and> (\<not> quoted (trim text) \<and> trim text = js ''true'' \<longrightarrow>
            handleSave_newValue text = Inr (JBool True))
      \<and> (\<not> quoted (trim text) \<and> trim text = js ''false'' \<longrightarrow>
            handleSave_newValue text = Inr (JBool False))
      \<and> (\<not> quoted (trim text) \<and> trim text \<noteq> js ''null'' \<and> trim text \<noteq> js ''true''
            \<and> trim text \<noteq> js ''false''
            \<and> StringToNumber (trim text) \<noteq> JNaN \<and> trim text \<noteq> [] \<longrightarrow>
            handleSave_newValue text = Inr (JNumber (StringToNumber (trim text))))
      \<and> (\<not> quoted (trim text) \<and> trim text \<noteq> js ''null'' \<and> trim text \<noteq> js ''true''
            \<and> trim text \<noteq> js ''false''
            \<and> (StringToNumber (trim text) = JNaN \<or> trim text = []) \<longrightarrow>
            handleSave_newValue text = Inr (JString (trim text)))"
  proof
    assume "JSON_parse text = Inl e"
    note f = handleSave_fallback[OF this]
    have n: "js ''true'' \<noteq> js ''null''" "js ''false'' \<noteq> js ''null''" "js ''false'' \<noteq> js ''true''"
      by (simp_all add: js_def)
    show "(quoted (trim text) \<longrightarrow> handleSave_newValue text = JSON_parse (trim text))
      \<and> (\<not> quoted (trim text) \<and> trim text = js ''null'' \<longrightarrow> handleSave_newValue text = Inr JNull)
      \<and> (\<not> quoted (trim text) \<and> trim text = js ''true'' \<longrightarrow>
            handleSave_newValue text = Inr (JBool True))
      \<and> (\<not> quoted (trim text) \<and> trim text = js ''false'' \<longrightarrow>
            handleSave_newValue text = Inr (JBool False))
      \<and> (\<not> quoted (trim text) \<and> trim text \<noteq> js ''null'' \<and> trim text \<noteq> js ''true''
            \<and> trim text \<noteq> js ''false''
            \<and> StringToNumber (trim text) \<noteq> JNaN \<and> trim text \<noteq> [] \<longrightarrow>
            handleSave_newValue text = Inr (JNumber (StringToNumber (trim text))))
      \<and> (\<not> quoted (trim text) \<and> trim text \<noteq> js ''null'' \<and> trim text \<noteq> js ''true''
            \<and> trim text \<noteq> js ''false''
            \<and> (StringToNumber (trim text) = JNaN \<or> trim text = []) \<longrightarrow>
            handleSave_newValue text = Inr (JString (trim text)))"
      unfolding f
      by (cases "quoted (trim text)"; cases "trim text = js ''null''";
          cases "trim text = js ''true''"; cases "trim text = js ''false''")
         (auto simp: n isNaN_def)
  qed
  have 3: "handleSave_newValue (js ''\"5\"'') = Inr (JString (js ''5''))"
    by (rule handleSave_parsed[OF JSON_parse_q5])
  have 4: "handleSave_newValue (js ''5'') = Inr (JNumber (JFin 5))"
    by (rule handleSave_parsed[OF JSON_parse_5])
  have 5: "handleSave_newValue (js ''true'') = Inr (JBool True)"
    by (rule handleSave_parsed[OF JSON_parse_true])
  have b: "js ''banana'' \<noteq> js ''null''" "js ''banana'' \<noteq> js ''true''" "js ''banana'' \<noteq> js ''false''"
    by (simp_all add: js_def)
  have 6: "handleSave_newValue (js ''banana'') = Inr (JString (js ''banana''))"
    unfolding handleSave_fallback[OF JSON_parse_banana] trim_banana
    using not_quoted_banana b by (simp add: StringToNumber_banana isNaN_def)
  have 7: "handleSave_newValue (js ''{\"a\":1}'') = Inr (JObject [(js ''a'', JNumber (JFin 1))])"
    by (rule handleSave_parsed[OF parse_obj])
  have 8: "handleSave_newValue plus5 = Inr (JNumber (JFin 5))"
    unfolding handleSave_fallback[OF plus5_facts(1)] plus5_facts(2)
    using plus5_facts(3-7) by (simp add: plus5_facts(8) isNaN_def)
  show ?thesis using 1 2 3 4 5 6 7 8 by (intro conjI)
qed

lemma JSON_parse_nbsp_true: "JSON_parse nbsp_true = Inl SyntaxError"
  by (simp add: nbsp_true_def JSON_parse_def lex_eval)

lemma trim_nbsp_true: "trim nbsp_true = js ''true''"
  by (simp add: nbsp_true_def trim_def js_def is_whitespace_def)

lemma not_quoted_true: "\<not> quoted (js ''true'')"
  by (simp add: quoted_def startsWith_def endsWith_def js_def dquote_def)

theorem C5_coercion_precedence_witness:
  "JSON_parse (js ''5'') = Inr (JNumber (JFin 5))
   \<and> handleSave_newValue (js ''5'') = Inr (JNumber (JFin 5))
   \<and> JSON_parse nbsp_true = Inl SyntaxError
   \<and> \<not> quoted (trim nbsp_true) \<and> trim nbsp_true = js ''true''
   \<and> handleSave_newValue nbsp_true = Inr (JBool True)
   \<and> JSON_parse plus5 = Inl SyntaxError \<and> \<not> quoted (trim plus5)
   \<and> StringToNumber (trim plus5) = JFin 5
   \<and> handleSave_newValue plus5 = Inr (JNumber (StringToNumber (trim plus5)))
   \<and> JSON_parse (js ''banana'') = Inl SyntaxError \<and> StringToNumber (trim (js ''banana'')) = JNaN
   \<and> handleSave_newValue (js ''banana'') = Inr (JString (trim (js ''banana'')))"
proof -
  have "handleSave_newValue nbsp_true = Inr (JBool True)"
    using C5_coercion_precedence[of nbsp_true "JNull" SyntaxError]
      JSON_parse_nbsp_true trim_nbsp_true not_quoted_true
    by simp
  moreover have "handleSave_newValue (js ''5'') = Inr (JNumber (JFin 5))"
    using C5_coercion_precedence[of "js ''5''" "JNumber (JFin 5)" SyntaxError] JSON_parse_5
    by blast
  moreover have "handleSave_newValue plus5 = Inr (JNumber (StringToNumber (trim plus5)))"
    using C5_coercion_precedence[of plus5 "JNull" SyntaxError] plus5_facts
    by simp
  moreover have "handleSave_newValue (js ''banana'') = Inr (JString (trim (js ''banana'')))"
    using C5_coercion_precedence[of "js ''banana''" "JNull" SyntaxError] JSON_parse_banana
      trim_banana not_quoted_banana banana_not_literal StringToNumber_banana
    by simp
  ultimately show ?thesis
    using JSON_parse_5 JSON_parse_nbsp_true trim_nbsp_true not_quoted_true plus5_facts
      JSON_parse_banana trim_banana StringToNumber_banana
    by simp
qed

text \<open>
  C6 (as amended): in the fallback tier, after the quoted-string, null, true and false
  tests fail, a non-empty trimmed text is coerced to a Number exactly when
  \<open>Number(trimmed)\<close> is not NaN, which holds for every numeric literal, the infinities
  included; every other text is returned as the trimmed text, a String.
\<close>

theorem C6_number_tier:
  "JSON_parse text = Inl e \<and> \<not> quoted (trim text) \<and> trim text \<noteq> js ''null''
     \<and> trim text \<noteq> js ''true'' \<and> trim text \<noteq> js ''false'' \<longrightarrow>
   handleSave_newValue text =
     (if trim text \<noteq> [] \<and> StringToNumber (trim text) \<noteq> JNaN
      then Inr (JNumber (StringToNumber (trim text)))
      else Inr (JString (trim text)))"
proof
  assume a: "JSON_parse text = Inl e \<and> \<not> quoted (trim text) \<and> trim text \<noteq> js ''null''
     \<and> trim text \<noteq> js ''true'' \<and> trim text \<noteq> js ''false''"
  then have "JSON_parse text = Inl e" by simp
  from handleSave_fallback[OF this] a
  show "handleSave_newValue text =
     (if trim text \<noteq> [] \<and> StringToNumber (trim text) \<noteq> JNaN
      then Inr (JNumber (StringToNumber (trim text)))
      else Inr (JString (trim text)))"
    by (auto simp: isNaN_def)
qed

lemma Infinity_not_literal:
  "js ''Infinity'' \<noteq> js ''null''" "js ''Infinity'' \<noteq> js ''true''" "js ''Infinity'' \<noteq> js ''false''"
  "js ''Infinity'' \<noteq> []"
  by (simp_all add: js_def)

theorem C6_number_tier_witness:
  "JSON_parse plus5 = Inl SyntaxError \<and> \<not> quoted (trim plus5)
   \<and> StringToNumber (trim plus5) = JFin 5
   \<and> handleSave_newValue plus5 = Inr (JNumber (JFin 5))
   \<and> JSON_parse (js ''banana'') = Inl SyntaxError \<and> \<not> quoted (trim (js ''banana''))
   \<and> StringToNumber (trim (js ''banana'')) = JNaN
   \<and> handleSave_newValue (js ''banana'') = Inr (JString (js ''banana''))"
proof -
  have 1: "handleSave_newValue plus5 = Inr (JNumber (JFin 5))"
    using C6_number_tier[of plus5 SyntaxError] plus5_facts by simp
  have 2: "handleSave_newValue (js ''banana'') = Inr (JString (js ''banana''))"
    using C6_number_tier[of "js ''banana''" SyntaxError] JSON_parse_banana trim_banana
      not_quoted_banana banana_not_literal StringToNumber_banana
    by simp
  show ?thesis
    using 1 2 plus5_facts JSON_parse_banana trim_banana not_quoted_banana StringToNumber_banana
    by simp
qed

text \<open>
  C6 as stated fails on \<open>Infinity\<close>: it is no JSON text, no quoted text and none of the three
  names; \<open>Number("Infinity")\<close> is the infinity, which is not finite and not NaN, and the
  source's test is \<open>!isNaN(...)\<close>, so the result is a Number and not the String.
\<close>

theorem C6_counterexample:
  "JSON_parse (js ''Infinity'') = Inl SyntaxError
   \<and> trim (js ''Infinity'') = js ''Infinity''
   \<and> \<not> quoted (js ''Infinity'')
   \<and> StringToNumber (js ''Infinity'') = JPosInf
   \<and> \<not> is_finite (StringToNumber (js ''Infinity''))
   \<and> handleSave_newValue (js ''Infinity'') = Inr (JNumber JPosInf)"
proof -
  have "handleSave_newValue (js ''Infinity'') = Inr (JNumber JPosInf)"
    unfolding handleSave_fallback[OF JSON_parse_Infinity] trim_Infinity
    using not_quoted_Infinity Infinity_not_literal
    by (simp add: StringToNumber_Infinity isNaN_def)
  then show ?thesis
    using JSON_parse_Infinity trim_Infinity not_quoted_Infinity StringToNumber_Infinity
    by (simp add: is_finite_def)
qed

lemma foldl_step_Failed: "fst (foldl step (Failed, st) toks) = Failed"
  by (induction toks arbitrary: st) simp_all

lemma foldl_step_Finished:
  "fst (foldl step (Finished v, st) toks) = (if toks = [] then Finished v else Failed)"
  by (cases toks) (simp_all add: foldl_step_Failed)

lemma parse_tokens_string_first:
  "parse_tokens (TStr s # toks) = Some v \<Longrightarrow> v = JString s \<and> toks = []"
proof -
  assume a: "parse_tokens (TStr s # toks) = Some v"
  obtain m st where m: "foldl step (Finished (JString s), []) toks = (m, st)"
    by (cases "foldl step (Finished (JString s), []) toks")
  with foldl_step_Finished[of "JString s" "[]" toks]
  have "m = (if toks = [] then Finished (JString s) else Failed)" by simp
  with a m show ?thesis by (auto simp: parse_tokens_def split: if_splits)
qed

lemma lex_quote_first:
  "lex (dquote # cs) = Some toks \<Longrightarrow> \<exists>s toks'. toks = TStr s # toks'"
  by (auto simp: dquote_def is_json_ws_def next_token_def split: option.splits)

lemma quoted_parse_is_string:
  "quoted t \<and> JSON_parse t = Inr v \<longrightarrow> (\<exists>s. v = JString s)"
proof
  assume a: "quoted t \<and> JSON_parse t = Inr v"
  then have "take 1 t = [dquote]" by (simp add: quoted_def startsWith_def)
  then obtain cs where t: "t = dquote # cs" by (cases t) simp_all
  from a obtain toks where l: "lex t = Some toks" and p: "parse_tokens toks = Some v"
    by (auto simp: JSON_parse_def split: option.splits)
  from lex_quote_first[OF l[unfolded t]] obtain s toks' where "toks = TStr s # toks'" by blast
  with p parse_tokens_string_first show "\<exists>s. v = JString s" by blast
qed

text \<open>
  C2 (as amended): the coercion fails exactly when the full parse fails and the trimmed
  text starts and ends with a double quote without being a JSON text; then the
  SyntaxError of \<open>JSON.parse(trimmed)\<close> leaves the block. Every text that is not so quoted
  gives a value, and when no earlier interpretation applies the value is the trimmed text
  as a String. A quoted text that passes the second parse gives a String.
\<close>

theorem C2_coercion_failure:
  "(handleSave_newValue text = Inl SyntaxError)
     = (JSON_parse text = Inl SyntaxError \<and> quoted (trim text)
        \<and> JSON_parse (trim text) = Inl SyntaxError)
   \<and> (\<not> quoted (trim text) \<longrightarrow> (\<exists>v. handleSave_newValue text = Inr v))
   \<and> (JSON_parse text = Inl SyntaxError \<and> \<not> quoted (trim text) \<and> trim text \<noteq> js ''null''
        \<and> trim text \<noteq> js ''true'' \<and> trim text \<noteq> js ''false''
        \<and> (StringToNumber (trim text) = JNaN \<or> trim text = []) \<longrightarrow>
      handleSave_newValue text = Inr (JString (trim text)))
   \<and> (JSON_parse text = Inl SyntaxError \<and> quoted (trim text)
        \<and> handleSave_newValue text = Inr w \<longrightarrow> (\<exists>s. w = JString s))"
proof (cases "JSON_parse text")
  case (Inr v)
  then show ?thesis by (simp add: handleSave_parsed)
next
  case (Inl e)
  then have e: "JSON_parse text = Inl SyntaxError" by (cases e) simp
  have q: "\<exists>s. w = JString s" if "quoted (trim text)" "JSON_parse (trim text) = Inr w"
    using that quoted_parse_is_string by blast
  show ?thesis
    unfolding handleSave_fallback[OF e]
    using e q by (auto simp: isNaN_def)
qed

theorem C2_coercion_failure_witness:
  "\<not> quoted (trim (js ''banana''))
   \<and> handleSave_newValue (js ''banana'') = Inr (JString (js ''banana''))
   \<and> (\<exists>v. handleSave_newValue (js ''banana'') = Inr v)"
  using C2_coercion_failure[of "js ''banana''"] JSON_parse_banana trim_banana
    not_quoted_banana banana_not_literal StringToNumber_banana
  by simp

text \<open>
  C2 as stated fails on the text \<open>"a"b"\<close>: it is not JSON, it starts and ends with a double
  quote, and the second \<open>JSON.parse\<close> throws.
\<close>

theorem C2_counterexample:
  "JSON_parse (js ''\"a\"b\"'') = Inl SyntaxError
   \<and> trim (js ''\"a\"b\"'') = js ''\"a\"b\"''
   \<and> quoted (js ''\"a\"b\"'')
   \<and> handleSave_newValue (js ''\"a\"b\"'') = Inl SyntaxError"
proof -
  have "handleSave_newValue (js ''\"a\"b\"'') = Inl SyntaxError"
    unfolding handleSave_fallback[OF JSON_parse_bad_quoted] trim_bad_quoted
    using quoted_bad JSON_parse_bad_quoted by simp
  then show ?thesis using JSON_parse_bad_quoted trim_bad_quoted quoted_bad by simp
qed

section \<open>Sharing and mutation\<close>

lemma hupdate_Cons:
  "hupdate other json (first # rest) v h =
     (case hshallow_copy h json of
        HArray xs zs \<Rightarrow>
          if in_bounds first (length xs) then
            (case hupdate other (harray_get other xs zs first) rest v (h @ [HArray xs zs]) of
               (child, h2) \<Rightarrow> (HRef (length h), store_element other h2 (length h) first child))
          else (HRef (length h), h @ [HArray xs zs])
      | HObject es \<Rightarrow>
          (case hupdate other (hobj_get es (prop_key other first)) rest v (h @ [HObject es]) of
             (child, h2) \<Rightarrow> (HRef (length h), store_property h2 (length h) (prop_key other first) child)))"
  by (cases rest; cases "hshallow_copy h json") (simp_all add: Let_def del: in_bounds.simps)

declare hupdate.simps(2) [simp del]

lemma frame_iff: "frame h h' = (length h \<le> length h' \<and> (\<forall>a<length h. h' ! a = h ! a))"
  by (auto simp: frame_def list_all_iff)

lemma frame_refl: "frame h h"
  by (simp add: frame_iff)

lemma frame_trans: "frame h h1 \<Longrightarrow> frame h1 h2 \<Longrightarrow> frame h h2"
  by (auto simp: frame_iff)

lemma frame_append: "frame h (h @ cs)"
  by (simp add: frame_iff nth_append)

lemma length_store_element: "length (store_element other h a seg v) = length h"
  by (simp add: store_element_def split: container.splits prod.splits)

lemma length_store_property: "length (store_property h a k v) = length h"
  by (simp add: store_property_def split: container.splits)

lemma nth_store_element: "b \<noteq> a \<Longrightarrow> store_element other h a seg v ! b = h ! b"
  by (simp add: store_element_def split: container.splits prod.splits)

lemma nth_store_property: "b \<noteq> a \<Longrightarrow> store_property h a k v ! b = h ! b"
  by (simp add: store_property_def split: container.splits)

lemma frame_store_element:
  "frame h h2 \<Longrightarrow> length h \<le> a \<Longrightarrow> frame h (store_element other h2 a seg v)"
  by (simp add: frame_iff length_store_element nth_store_element)

lemma frame_store_property:
  "frame h h2 \<Longrightarrow> length h \<le> a \<Longrightarrow> frame h (store_property h2 a k v)"
  by (simp add: frame_iff length_store_property nth_store_property)

lemma hupdate_frame:
  "hupdate other json P v h = (R, h') \<Longrightarrow> frame h h'"
proof (induction P arbitrary: json h R h')
  case Nil
  then show ?case by (simp add: frame_refl)
next
  case (Cons first rest)
  show ?case
  proof (cases "hshallow_copy h json")
    case (HArray xs zs)
    show ?thesis
    proof (cases "in_bounds first (length xs)")
      case False
      with Cons.prems HArray have "h' = h @ [HArray xs zs]" by (simp add: hupdate_Cons)
      then show ?thesis by (simp add: frame_append)
    next
      case True
      obtain child h2 where r: "hupdate other (harray_get other xs zs first) rest v (h @ [HArray xs zs]) = (child, h2)"
        by (cases "hupdate other (harray_get other xs zs first) rest v (h @ [HArray xs zs])")
      with Cons.prems HArray True have h': "h' = store_element other h2 (length h) first child"
        by (simp add: hupdate_Cons)
      from Cons.IH[OF r] have "frame (h @ [HArray xs zs]) h2" .
      with frame_append[of h "[HArray xs zs]"] have "frame h h2" by (rule frame_trans)
      then show ?thesis unfolding h' by (rule frame_store_element) simp
    qed
  next
    case (HObject es)
    obtain child h2 where r: "hupdate other (hobj_get es (prop_key other first)) rest v (h @ [HObject es]) = (child, h2)"
      by (cases "hupdate other (hobj_get es (prop_key other first)) rest v (h @ [HObject es])")
    with Cons.prems HObject have h': "h' = store_property h2 (length h) (prop_key other first) child"
      by (simp add: hupdate_Cons)
    from Cons.IH[OF r] have "frame (h @ [HObject es]) h2" .
    with frame_append[of h "[HObject es]"] have "frame h h2" by (rule frame_trans)
    then show ?thesis unfolding h' by (rule frame_store_property) simp
  qed
qed


lemma hlookup_base:
  "hlookup other h0 v qs = Some w \<Longrightarrow> length h0 \<le> length h'' \<Longrightarrow>
   \<forall>a<length h0. h'' ! a = h0 ! a \<Longrightarrow> hlookup other h'' v qs = Some w"
proof (induction qs arbitrary: v)
  case Nil
  then show ?case by simp
next
  case (Cons q qs)
  from Cons.prems(1) obtain a where v: "v = HRef a" and a: "a < length h0"
    by (cases v) (auto split: if_splits)
  from a Cons.prems(2,3) have c: "h'' ! a = h0 ! a" "a < length h''" by auto
  show ?case
  proof (cases "h0 ! a")
    case (HArray xs zs)
    with Cons.prems(1) v a obtain i where i: "element_index q = Some i" "i < length xs"
      "hlookup other h0 (xs ! i) qs = Some w"
      by (auto split: option.splits if_splits)
    from Cons.IH[OF i(3) Cons.prems(2,3)] show ?thesis
      using v c HArray i by simp
  next
    case (HObject es)
    with Cons.prems(1) v a obtain w0 where w0: "map_of es (prop_key other q) = Some w0"
      "hlookup other h0 w0 qs = Some w"
      by (auto split: option.splits)
    from Cons.IH[OF w0(2) Cons.prems(2,3)] show ?thesis
      using v c HObject w0 by simp
  qed
qed

lemma element_in_bounds:
  "element_index p = Some i \<Longrightarrow> i < len \<Longrightarrow> in_bounds p len"
proof (cases p)
  case (Idx n)
  assume "element_index p = Some i" "i < len"
  with Idx show ?thesis by (auto split: if_splits)
next
  case (Key s)
  assume "element_index p = Some i" "i < len"
  with Key show ?thesis using in_bounds_canonical[of s i len] by simp
qed

lemma array_set_nth_same:
  "element_index p = Some i \<Longrightarrow> i < length xs \<Longrightarrow>
   fst (array_set hole other xs zs p v) ! i = v"
  by (simp add: array_set_def)

lemma array_set_nth_other:
  "element_index p \<noteq> Some i \<Longrightarrow> i < length xs \<Longrightarrow>
   fst (array_set hole other xs zs p v) ! i = xs ! i"
  by (auto simp: array_set_def nth_append split: option.splits)

lemma length_array_set_ge: "length xs \<le> length (fst (array_set hole other xs zs p v))"
  by (auto simp: array_set_def split: option.splits)

lemma harray_get_element:
  "element_index p = Some i \<Longrightarrow> i < length xs \<Longrightarrow> harray_get other xs zs p = xs ! i"
  by (simp add: harray_get_def)

lemma map_of_obj_set_other:
  "k' \<noteq> k \<Longrightarrow> map_of (obj_set es k v) k' = map_of es k'"
  by (simp add: obj_set_def map_of_obj_define)

lemma map_of_obj_set_own:
  "map_of es k = Some w \<Longrightarrow> map_of (obj_set es k v) k = Some v"
  by (simp add: obj_set_def map_of_obj_define has_own_def)

lemma hshallow_copy_array:
  "a < length h \<Longrightarrow> h ! a = HArray xs zs \<Longrightarrow> hshallow_copy h (HRef a) = HArray xs []"
  by (simp add: hshallow_copy_def isArray_def helements_def)

lemma hshallow_copy_object:
  "a < length h \<Longrightarrow> h ! a = HObject es \<Longrightarrow> hshallow_copy h (HRef a) = HObject es"
  by (simp add: hshallow_copy_def isArray_def hspread_props_def)

lemma store_element_cell:
  "a < length h \<Longrightarrow> h ! a = HArray xs zs \<Longrightarrow>
   store_element other h a seg v ! a
     = HArray (fst (array_set HUndefined other xs zs seg v))
              (snd (array_set HUndefined other xs zs seg v))"
  by (simp add: store_element_def split: prod.splits)

lemma store_property_cell:
  "a < length h \<Longrightarrow> h ! a = HObject es \<Longrightarrow>
   store_property h a k v ! a = HObject (obj_set es k v)"
  by (simp add: store_property_def)

lemma sharing_gen:
  "hupdate other D P V h = (R, h') \<Longrightarrow> frame h0 h \<Longrightarrow> lookup_off other h0 D P Q = Some w \<Longrightarrow>
   length h' \<le> length h'' \<Longrightarrow> \<forall>a. length h \<le> a \<and> a < length h' \<longrightarrow> h'' ! a = h' ! a \<Longrightarrow>
   \<forall>a<length h0. h'' ! a = h0 ! a \<Longrightarrow>
   hlookup other h'' R Q = Some w"
proof (induction P arbitrary: D h R h' Q)
  case Nil
  then show ?case by simp
next
  case (Cons p ps)
  note upd = Cons.prems(1) and fr = Cons.prems(2) and off = Cons.prems(3)
    and len = Cons.prems(4) and fresh = Cons.prems(5) and old = Cons.prems(6)
  from off obtain q qs where Q: "Q = q # qs" by (cases Q) simp_all
  from off Q obtain a where D: "D = HRef a" and a0: "a < length h0"
    by (cases D) (auto split: if_splits)
  from fr a0 have a: "a < length h" and cell: "h ! a = h0 ! a" by (auto simp: frame_iff)
  from fr have l0: "length h0 \<le> length h" by (simp add: frame_iff)
  from hupdate_frame[OF upd] have l1: "length h \<le> length h'" by (simp add: frame_iff)
  have base: "length h0 \<le> length h''" using l0 l1 len by simp
  let ?r = "length h"
  show ?case
  proof (cases "h0 ! a")
    case (HArray xs zs)
    have copy: "hshallow_copy h D = HArray xs []"
      using D a cell HArray by (simp add: hshallow_copy_array)
    from off Q D a0 HArray obtain i where i: "element_index q = Some i" "i < length xs"
      and w: "if element_index p = Some i then lookup_off other h0 (xs ! i) ps qs = Some w
              else hlookup other h0 (xs ! i) qs = Some w"
      by (auto split: option.splits if_splits)
    let ?h1 = "h @ [HArray xs []]"
    show ?thesis
    proof (cases "in_bounds p (length xs)")
      case False
      with upd copy have R: "R = HRef ?r" and h': "h' = ?h1"
        by (simp_all add: hupdate_Cons)
      from h' have rl: "?r < length h'" by simp
      with fresh len have c: "h'' ! ?r = HArray xs []" "?r < length h''" using h' by auto
      from False i have "element_index p \<noteq> Some i" using element_in_bounds by blast
      with w have "hlookup other h0 (xs ! i) qs = Some w" by simp
      from hlookup_base[OF this base old] show ?thesis
        using R Q c i by simp
    next
      case True
      obtain child h2 where rec: "hupdate other (harray_get other xs [] p) ps V ?h1 = (child, h2)"
        by (cases "hupdate other (harray_get other xs [] p) ps V ?h1")
      with upd copy True have R: "R = HRef ?r"
        and h': "h' = store_element other h2 ?r p child"
        by (simp_all add: hupdate_Cons)
      from hupdate_frame[OF rec] have f2: "frame ?h1 h2" .
      then have r2: "?r < length h2" "h2 ! ?r = HArray xs []" by (auto simp: frame_iff)
      have lh': "length h' = length h2" unfolding h' by (rule length_store_element)
      let ?ys = "fst (array_set HUndefined other xs [] p child)"
      let ?qs = "snd (array_set HUndefined other xs [] p child)"
      have cr: "h' ! ?r = HArray ?ys ?qs"
        unfolding h' using r2 by (rule store_element_cell)
      from r2 lh' fresh len have c: "h'' ! ?r = HArray ?ys ?qs" "?r < length h''"
        using cr by auto
      have li: "i < length ?ys"
        using i(2) length_array_set_ge[of xs HUndefined other "[]" p child] by simp
      show ?thesis
      proof (cases "element_index p = Some i")
        case same: True
        with w have o: "lookup_off other h0 (xs ! i) ps qs = Some w" by simp
        have g: "harray_get other xs [] p = xs ! i" using same i(2) by (rule harray_get_element)
        have f1: "frame h0 ?h1" using fr frame_append frame_trans by blast
        have l2: "length h2 \<le> length h''" using len lh' by simp
        have fr2: "\<forall>b. length ?h1 \<le> b \<and> b < length h2 \<longrightarrow> h'' ! b = h2 ! b"
        proof (intro allI impI)
          fix b assume b: "length ?h1 \<le> b \<and> b < length h2"
          then have "b \<noteq> ?r" by simp
          then have "h' ! b = h2 ! b" unfolding h' by (rule nth_store_element)
          moreover from b lh' have "length h \<le> b \<and> b < length h'" by simp
          ultimately show "h'' ! b = h2 ! b" using fresh by simp
        qed
        from Cons.IH[OF rec[unfolded g] f1 o l2 fr2 old]
        have "hlookup other h'' child qs = Some w" .
        moreover have "?ys ! i = child"
          using same i(2) by (rule array_set_nth_same)
        ultimately show ?thesis using R Q c i li by simp
      next
        case other: False
        with w have "hlookup other h0 (xs ! i) qs = Some w" by simp
        from hlookup_base[OF this base old]
        have "hlookup other h'' (xs ! i) qs = Some w" .
        moreover have "?ys ! i = xs ! i"
          using other i(2) by (rule array_set_nth_other)
        ultimately show ?thesis using R Q c i li by simp
      qed
    qed
  next
    case (HObject es)
    have copy: "hshallow_copy h D = HObject es"
      using D a cell HObject by (simp add: hshallow_copy_object)
    from off Q D a0 HObject obtain w0 where w0: "map_of es (prop_key other q) = Some w0"
      and w: "if prop_key other p = prop_key other q then lookup_off other h0 w0 ps qs = Some w
              else hlookup other h0 w0 qs = Some w"
      by (auto split: option.splits if_splits)
    let ?h1 = "h @ [HObject es]"
    obtain child h2 where rec: "hupdate other (hobj_get es (prop_key other p)) ps V ?h1 = (child, h2)"
      by (cases "hupdate other (hobj_get es (prop_key other p)) ps V ?h1")
    with upd copy have R: "R = HRef ?r"
      and h': "h' = store_property h2 ?r (prop_key other p) child"
      by (simp_all add: hupdate_Cons)
    from hupdate_frame[OF rec] have f2: "frame ?h1 h2" .
    then have r2: "?r < length h2" "h2 ! ?r = HObject es" by (auto simp: frame_iff)
    have lh': "length h' = length h2" unfolding h' by (rule length_store_property)
    have cr: "h' ! ?r = HObject (obj_set es (prop_key other p) child)"
      unfolding h' using r2 by (rule store_property_cell)
    from r2 lh' fresh len have c: "h'' ! ?r = HObject (obj_set es (prop_key other p) child)"
      "?r < length h''"
      using cr by auto
    show ?thesis
    proof (cases "prop_key other p = prop_key other q")
      case same: True
      with w have o: "lookup_off other h0 w0 ps qs = Some w" by simp
      have g: "hobj_get es (prop_key other p) = w0" using same w0 by (simp add: hobj_get_def)
      have f1: "frame h0 ?h1" using fr frame_append frame_trans by blast
      have l2: "length h2 \<le> length h''" using len lh' by simp
      have fr2: "\<forall>b. length ?h1 \<le> b \<and> b < length h2 \<longrightarrow> h'' ! b = h2 ! b"
      proof (intro allI impI)
        fix b assume b: "length ?h1 \<le> b \<and> b < length h2"
        then have "b \<noteq> ?r" by simp
        then have "h' ! b = h2 ! b" unfolding h' by (rule nth_store_property)
        moreover from b lh' have "length h \<le> b \<and> b < length h'" by simp
        ultimately show "h'' ! b = h2 ! b" using fresh by simp
      qed
      from Cons.IH[OF rec[unfolded g] f1 o l2 fr2 old]
      have "hlookup other h'' child qs = Some w" .
      moreover have "map_of (obj_set es (prop_key other p) child) (prop_key other q) = Some child"
        using same w0 by (simp add: map_of_obj_set_own)
      ultimately show ?thesis using R Q c by simp
    next
      case other: False
      with w have "hlookup other h0 w0 qs = Some w" by simp
      from hlookup_base[OF this base old]
      have "hlookup other h'' w0 qs = Some w" .
      moreover have "map_of (obj_set es (prop_key other p) child) (prop_key other q) = Some w0"
        using other w0 by (simp add: map_of_obj_set_other)
      ultimately show ?thesis using R Q c by simp
    qed
  qed
qed

lemma lookup_off_hlookup:
  "lookup_off other h v P Q = Some w \<Longrightarrow> hlookup other h v Q = Some w"
  by (induction h v P Q rule: lookup_off.induct)
     (auto split: hvalue.splits if_splits container.splits option.splits)


subsection \<open>The heap function computes updateJsonAtPath\<close>

lemma repr_base:
  "repr h0 x j \<Longrightarrow> length h0 \<le> length h'' \<Longrightarrow> \<forall>a<length h0. h'' ! a = h0 ! a \<Longrightarrow>
   repr h'' x j"
proof (induction rule: repr.induct)
  case (repr_array a xs zs ys qs)
  from repr_array.IH repr_array.prems have "list_all2 (repr h'') xs ys"
    by (auto elim!: list_all2_mono)
  moreover from repr_array.IH repr_array.prems have "same_props (repr h'') zs qs"
    unfolding same_props_def by (auto elim!: list_all2_mono)
  ultimately show ?case using repr_array by (auto intro: repr.repr_array)
next
  case (repr_object a es fs)
  from repr_object.IH repr_object.prems have "same_props (repr h'') es fs"
    unfolding same_props_def by (auto elim!: list_all2_mono)
  with repr_object show ?case by (auto intro: repr.repr_object)
qed (auto intro: repr.intros)


lemma same_props_Nil [simp]: "same_props R [] []"
  by (simp add: same_props_def)

lemma same_props_Cons [simp]:
  "same_props R (e # es) (f # fs) = (fst e = fst f \<and> R (snd e) (snd f) \<and> same_props R es fs)"
  by (simp add: same_props_def)

lemma same_props_cases:
  "same_props R es fs \<Longrightarrow>
   (es = [] \<and> fs = []) \<or> (\<exists>e es' f fs'. es = e # es' \<and> fs = f # fs' \<and> fst e = fst f
        \<and> R (snd e) (snd f) \<and> same_props R es' fs')"
  unfolding same_props_def by (cases es; cases fs) auto

lemma same_props_induct [consumes 1, case_names Nil Cons]:
  assumes "same_props R es fs"
    and "P [] []"
    and "\<And>k v j es fs. R v j \<Longrightarrow> same_props R es fs \<Longrightarrow> P es fs \<Longrightarrow> P ((k, v) # es) ((k, j) # fs)"
  shows "P es fs"
  using assms(1) unfolding same_props_def
proof (induction rule: list_all2_induct)
  case Nil
  show ?case by (rule assms(2))
next
  case (Cons e es f fs)
  obtain k v where e: "e = (k, v)" by (cases e)
  obtain k' j where f: "f = (k', j)" by (cases f)
  from Cons e f have "k' = k" "R v j" by simp_all
  with Cons assms(3)[of v j es fs k] e f show ?case by (simp add: same_props_def)
qed

lemma same_props_map_of:
  "same_props R es fs \<Longrightarrow>
   (case map_of es k of None \<Rightarrow> map_of fs k = None
    | Some v \<Rightarrow> (\<exists>j. map_of fs k = Some j \<and> R v j))"
  by (induction rule: same_props_induct) (auto split: option.splits)

lemma same_props_has_own: "same_props R es fs \<Longrightarrow> has_own es k = has_own fs k"
  using same_props_map_of[of R es fs k] by (auto simp: has_own_def split: option.splits)

lemma same_props_replace:
  "same_props R es fs \<Longrightarrow> R v j \<Longrightarrow> same_props R (obj_replace k v es) (obj_replace k j fs)"
  by (induction rule: same_props_induct) auto

lemma same_props_insert_index:
  "same_props R es fs \<Longrightarrow> R v j \<Longrightarrow>
   same_props R (obj_insert_index n k v es) (obj_insert_index n k j fs)"
  by (induction rule: same_props_induct) (auto split: option.splits)

lemma same_props_snoc:
  "same_props R es fs \<Longrightarrow> R v j \<Longrightarrow> same_props R (es @ [(k, v)]) (fs @ [(k, j)])"
  by (induction rule: same_props_induct) auto

lemma same_props_define:
  "same_props R es fs \<Longrightarrow> R v j \<Longrightarrow> same_props R (obj_define k v es) (obj_define k j fs)"
  using same_props_has_own[of R es fs k]
  by (auto simp: obj_define_def same_props_replace same_props_insert_index same_props_snoc
      split: option.splits)

lemma same_props_set:
  "same_props R es fs \<Longrightarrow> R v j \<Longrightarrow> same_props R (obj_set es k v) (obj_set fs k j)"
  using same_props_has_own[of R es fs k]
  by (auto simp: obj_set_def same_props_define)

lemma same_props_get:
  "same_props (repr h) es fs \<Longrightarrow> repr h (hobj_get es k) (obj_get fs k)"
  using same_props_map_of[of "repr h" es fs k]
  by (auto simp: hobj_get_def obj_get_def intro: repr.intros split: option.splits)

lemma list_all2_array_set:
  assumes "list_all2 R xs ys" "R v j" "R hole hole'" "same_props R zs qs"
  shows "list_all2 R (fst (array_set hole other xs zs p v)) (fst (array_set hole' other ys qs p j))
       \<and> same_props R (snd (array_set hole other xs zs p v)) (snd (array_set hole' other ys qs p j))"
proof -
  from assms(1) have l: "length xs = length ys" by (rule list_all2_lengthD)
  have "list_all2 R (replicate n hole) (replicate n hole')" for n
    using assms(3) by (simp add: list_all2_conv_all_nth)
  then show ?thesis
    using assms l
    by (auto simp: array_set_def list_all2_update_cong same_props_set list_all2_appendI
        split: option.splits)
qed

lemma list_all2_array_get:
  "list_all2 (repr h) xs ys \<Longrightarrow> same_props (repr h) zs qs \<Longrightarrow>
   repr h (harray_get other xs zs p) (array_get other ys qs p)"
  by (auto simp: harray_get_def array_get_def list_all2_lengthD list_all2_nthD same_props_get
      intro: repr.intros split: option.splits)

lemma same_props_base:
  "same_props (repr h0) es fs \<Longrightarrow> length h0 \<le> length h'' \<Longrightarrow>
   \<forall>a<length h0. h'' ! a = h0 ! a \<Longrightarrow> same_props (repr h'') es fs"
  unfolding same_props_def by (auto elim!: list_all2_mono intro: repr_base)

lemma list_all2_repr_base:
  "list_all2 (repr h0) xs ys \<Longrightarrow> length h0 \<le> length h'' \<Longrightarrow>
   \<forall>a<length h0. h'' ! a = h0 ! a \<Longrightarrow> list_all2 (repr h'') xs ys"
  by (auto elim!: list_all2_mono intro: repr_base)

lemma repr_copy_array:
  assumes "repr h0 D (JArray ys qs)" "frame h0 h"
  obtains xs where "hshallow_copy h D = HArray xs []" "list_all2 (repr h0) xs ys"
proof -
  from assms(1) obtain a xs zs where D: "D = HRef a" "a < length h0" "h0 ! a = HArray xs zs"
    "list_all2 (repr h0) xs ys"
    by (cases rule: repr.cases) auto
  from D assms(2) have "a < length h" "h ! a = HArray xs zs" by (auto simp: frame_iff)
  then have "hshallow_copy h D = HArray xs []" using D(1) by (simp add: hshallow_copy_array)
  with D(4) that show thesis by blast
qed

lemma repr_copy_other:
  assumes "repr h0 D d" "frame h0 h" "\<forall>ys qs. d \<noteq> JArray ys qs"
  obtains es where "hshallow_copy h D = HObject es" "same_props (repr h0) es (spread_props d)"
proof -
  from assms(1,3) show thesis
  proof (cases rule: repr.cases)
    case (repr_string s)
    have "same_props (repr h0) (map (\<lambda>i. (nat_digits i, HString [s ! i])) [0..<length s])
            (map (\<lambda>i. (nat_digits i, JString [s ! i])) [0..<length s])"
      unfolding same_props_def by (auto simp: list_all2_conv_all_nth intro: repr.intros)
    with repr_string that show ?thesis
      by (simp add: hshallow_copy_def isArray_def hspread_props_def)
  next
    case (repr_object a es fs)
    with assms(2) have "a < length h" "h ! a = HObject es" by (auto simp: frame_iff)
    then have "hshallow_copy h D = HObject es" using repr_object(1) by (simp add: hshallow_copy_object)
    with repr_object that show ?thesis by simp
  qed (use that in \<open>simp_all add: hshallow_copy_def isArray_def hspread_props_def\<close>)
qed

lemma refine_gen:
  "hupdate other D P V h = (R, h') \<Longrightarrow> frame h0 h \<Longrightarrow> repr h0 D d \<Longrightarrow> repr h0 V v \<Longrightarrow>
   length h' \<le> length h'' \<Longrightarrow> \<forall>a. length h \<le> a \<and> a < length h' \<longrightarrow> h'' ! a = h' ! a \<Longrightarrow>
   \<forall>a<length h0. h'' ! a = h0 ! a \<Longrightarrow>
   repr h'' R (updateJsonAtPath other d P v)"
proof (induction P arbitrary: D d h R h')
  case Nil
  from Nil.prems(1) have "R = V" "h' = h" by simp_all
  moreover from Nil.prems(2) have "length h0 \<le> length h" by (simp add: frame_iff)
  ultimately show ?case using Nil.prems(4,5,7) by (auto intro: repr_base)
next
  case (Cons p ps)
  note upd = Cons.prems(1) and fr = Cons.prems(2) and rD = Cons.prems(3) and rV = Cons.prems(4)
    and len = Cons.prems(5) and fresh = Cons.prems(6) and old = Cons.prems(7)
  from fr have l0: "length h0 \<le> length h" by (simp add: frame_iff)
  from hupdate_frame[OF upd] have l1: "length h \<le> length h'" by (simp add: frame_iff)
  have base: "length h0 \<le> length h''" using l0 l1 len by simp
  let ?r = "length h"
  show ?case
  proof (cases "\<exists>ys qs. d = JArray ys qs")
    case True
    then obtain ys qs where d: "d = JArray ys qs" by blast
    from repr_copy_array[OF rD[unfolded d] fr] obtain xs where
      copy: "hshallow_copy h D = HArray xs []" and rel: "list_all2 (repr h0) xs ys" by blast
    from rel have lxy: "length xs = length ys" by (rule list_all2_lengthD)
    from list_all2_repr_base[OF rel base old] have rel'': "list_all2 (repr h'') xs ys" .
    let ?h1 = "h @ [HArray xs []]"
    show ?thesis
    proof (cases "in_bounds p (length xs)")
      case False
      with upd copy have R: "R = HRef ?r" and h': "h' = ?h1" by (simp_all add: hupdate_Cons)
      from h' fresh len have c: "h'' ! ?r = HArray xs []" "?r < length h''" by auto
      from False lxy have "updateJsonAtPath other d (p # ps) v = JArray ys []"
        by (simp add: d updateJsonAtPath_array)
      then show ?thesis using R c rel'' by (auto intro: repr.repr_array)
    next
      case True
      obtain child h2 where rec: "hupdate other (harray_get other xs [] p) ps V ?h1 = (child, h2)"
        by (cases "hupdate other (harray_get other xs [] p) ps V ?h1")
      with upd copy True have R: "R = HRef ?r" and h': "h' = store_element other h2 ?r p child"
        by (simp_all add: hupdate_Cons)
      from hupdate_frame[OF rec] have f2: "frame ?h1 h2" .
      then have r2: "?r < length h2" "h2 ! ?r = HArray xs []" by (auto simp: frame_iff)
      have lh': "length h' = length h2" unfolding h' by (rule length_store_element)
      let ?xs' = "fst (array_set HUndefined other xs [] p child)"
      let ?zs' = "snd (array_set HUndefined other xs [] p child)"
      have cr: "h' ! ?r = HArray ?xs' ?zs'"
        unfolding h' using r2 by (rule store_element_cell)
      from r2 lh' fresh len have c: "h'' ! ?r = HArray ?xs' ?zs'" "?r < length h''"
        using cr by auto
      have f1: "frame h0 ?h1" using fr frame_append frame_trans by blast
      have l2: "length h2 \<le> length h''" using len lh' by simp
      have fr2: "\<forall>b. length ?h1 \<le> b \<and> b < length h2 \<longrightarrow> h'' ! b = h2 ! b"
      proof (intro allI impI)
        fix b assume b: "length ?h1 \<le> b \<and> b < length h2"
        then have "b \<noteq> ?r" by simp
        then have "h' ! b = h2 ! b" unfolding h' by (rule nth_store_element)
        moreover from b lh' have "length h \<le> b \<and> b < length h'" by simp
        ultimately show "h'' ! b = h2 ! b" using fresh by simp
      qed
      have g: "repr h0 (harray_get other xs [] p) (array_get other ys [] p)"
        using rel by (rule list_all2_array_get) simp
      from Cons.IH[OF rec f1 g rV l2 fr2 old]
      have rc: "repr h'' child (updateJsonAtPath other (array_get other ys [] p) ps v)" .
      let ?j = "updateJsonAtPath other (array_get other ys [] p) ps v"
      have "list_all2 (repr h'') ?xs' (fst (array_set JUndefined other ys [] p ?j))
          \<and> same_props (repr h'') ?zs' (snd (array_set JUndefined other ys [] p ?j))"
        by (rule list_all2_array_set[OF rel'' rc]) (simp_all add: repr.repr_undefined)
      moreover from True lxy have "updateJsonAtPath other d (p # ps) v
          = JArray (fst (array_set JUndefined other ys [] p ?j))
                   (snd (array_set JUndefined other ys [] p ?j))"
        by (simp add: d updateJsonAtPath_array split: prod.splits)
      ultimately show ?thesis using R c by (auto intro: repr.repr_array)
    qed
  next
    case False
    then have na: "\<forall>ys qs. d \<noteq> JArray ys qs" by simp
    from repr_copy_other[OF rD fr na] obtain es where
      copy: "hshallow_copy h D = HObject es"
      and rel: "same_props (repr h0) es (spread_props d)" by blast
    from same_props_base[OF rel base old] have rel'': "same_props (repr h'') es (spread_props d)" .
    let ?h1 = "h @ [HObject es]"
    let ?k = "prop_key other p"
    obtain child h2 where rec: "hupdate other (hobj_get es ?k) ps V ?h1 = (child, h2)"
      by (cases "hupdate other (hobj_get es ?k) ps V ?h1")
    with upd copy have R: "R = HRef ?r" and h': "h' = store_property h2 ?r ?k child"
      by (simp_all add: hupdate_Cons)
    from hupdate_frame[OF rec] have f2: "frame ?h1 h2" .
    then have r2: "?r < length h2" "h2 ! ?r = HObject es" by (auto simp: frame_iff)
    have lh': "length h' = length h2" unfolding h' by (rule length_store_property)
    have cr: "h' ! ?r = HObject (obj_set es ?k child)"
      unfolding h' using r2 by (rule store_property_cell)
    from r2 lh' fresh len have c: "h'' ! ?r = HObject (obj_set es ?k child)" "?r < length h''"
      using cr by auto
    have f1: "frame h0 ?h1" using fr frame_append frame_trans by blast
    have l2: "length h2 \<le> length h''" using len lh' by simp
    have fr2: "\<forall>b. length ?h1 \<le> b \<and> b < length h2 \<longrightarrow> h'' ! b = h2 ! b"
    proof (intro allI impI)
      fix b assume b: "length ?h1 \<le> b \<and> b < length h2"
      then have "b \<noteq> ?r" by simp
      then have "h' ! b = h2 ! b" unfolding h' by (rule nth_store_property)
      moreover from b lh' have "length h \<le> b \<and> b < length h'" by simp
      ultimately show "h'' ! b = h2 ! b" using fresh by simp
    qed
    have g: "repr h0 (hobj_get es ?k) (obj_get (spread_props d) ?k)"
      using rel by (rule same_props_get)
    from Cons.IH[OF rec f1 g rV l2 fr2 old]
    have rc: "repr h'' child (updateJsonAtPath other (obj_get (spread_props d) ?k) ps v)" .
    from same_props_set[OF rel'' rc]
    have "same_props (repr h'') (obj_set es ?k child)
            (obj_set (spread_props d) ?k (updateJsonAtPath other (obj_get (spread_props d) ?k) ps v))" .
    moreover have "updateJsonAtPath other d (p # ps) v
        = JObject (obj_set (spread_props d) ?k
                     (updateJsonAtPath other (obj_get (spread_props d) ?k) ps v))"
      using na by (rule updateJsonAtPath_other)
    ultimately show ?thesis using R c by (auto intro: repr.repr_object)
  qed
qed

lemma hupdate_refines:
  assumes "hupdate other D P V h = (R, h')" "repr h D d" "repr h V v"
  shows "repr h' R (updateJsonAtPath other d P v)"
proof -
  from hupdate_frame[OF assms(1)] have "\<forall>a<length h. h' ! a = h ! a" by (simp add: frame_iff)
  then show ?thesis
    by (intro refine_gen[OF assms(1) frame_refl assms(2,3)]) simp_all
qed

text \<open>
  C3: a call writes no container that existed before it: the heap after the call holds
  every earlier container at its address with its content unchanged (so neither the
  document nor anything nested in it is mutated). And every subtree of the document that
  is not on the ancestor chain of the path is shared: reading along a path \<open>Q\<close> that leaves
  \<open>P\<close> gives, in the result and the new heap, the very value it gave in the document and
  the old heap, a reference to the same address where it is a container. The heap
  function is the function of the source: where the document and the new value are
  represented in the heap, the result represents \<open>updateJsonAtPath\<close> of them.
\<close>

theorem C3_sharing_and_no_mutation:
  "hupdate other D P V h = (R, h') \<longrightarrow>
     (length h \<le> length h' \<and> (\<forall>a<length h. h' ! a = h ! a))
   \<and> (lookup_off other h D P Q = Some w \<longrightarrow> hlookup other h D Q = Some w \<and> hlookup other h' R Q = Some w)
   \<and> (repr h D d \<and> repr h V v \<longrightarrow> repr h' R (updateJsonAtPath other d P v))"
proof
  assume u: "hupdate other D P V h = (R, h')"
  from hupdate_frame[OF u] have f: "length h \<le> length h' \<and> (\<forall>a<length h. h' ! a = h ! a)"
    by (simp add: frame_iff)
  have s: "hlookup other h D Q = Some w \<and> hlookup other h' R Q = Some w" if o: "lookup_off other h D P Q = Some w"
  proof
    show "hlookup other h D Q = Some w" using o by (rule lookup_off_hlookup)
    show "hlookup other h' R Q = Some w"
      using f by (intro sharing_gen[OF u frame_refl o]) simp_all
  qed
  have r: "repr h' R (updateJsonAtPath other d P v)" if "repr h D d \<and> repr h V v"
    using that hupdate_refines[OF u] by blast
  show "(length h \<le> length h' \<and> (\<forall>a<length h. h' ! a = h ! a))
   \<and> (lookup_off other h D P Q = Some w \<longrightarrow> hlookup other h D Q = Some w \<and> hlookup other h' R Q = Some w)
   \<and> (repr h D d \<and> repr h V v \<longrightarrow> repr h' R (updateJsonAtPath other d P v))"
    using f s r by blast
qed

lemma items_not_index: "array_index_of_key (js ''items'') = None"
  by (simp add: array_index_of_key_def js_def is_digit_def)

lemma hupdate_items:
  "hupdate other (HRef 0) [Key (js ''items''), Idx 1] (HNumber (JFin 99)) heap_items
     = (HRef 3, heap_items_updated)"
  by (simp add: hupdate_Cons heap_items_def heap_items_updated_def hshallow_copy_def
      isArray_def helements_def hspread_props_def hobj_get_def store_property_def
      store_element_def obj_set_def obj_define_def has_own_def array_set_def js_def)

lemma repr_doc_items_meta: "repr heap_items (HRef 0) doc_items_meta"
proof -
  have 1: "repr heap_items (HRef 1) (JArray [num 1, num 2, num 3] [])"
    by (rule repr.repr_array[where xs = "[HNumber (JFin 1), HNumber (JFin 2), HNumber (JFin 3)]"
          and ps = "[]"])
       (auto simp: heap_items_def num_def intro: repr.intros)
  have 2: "repr heap_items (HRef 2) (JObject [(js ''k'', JBool True)])"
    by (rule repr.repr_object[where es = "[(js ''k'', HBool True)]"])
       (auto simp: heap_items_def intro: repr.intros)
  show ?thesis
    unfolding doc_items_meta_def
    by (rule repr.repr_object[where es = "[(js ''items'', HRef 1), (js ''meta'', HRef 2)]"])
       (use 1 2 in \<open>auto simp: heap_items_def\<close>)
qed

theorem C3_sharing_and_no_mutation_witness:
  "hupdate (\<lambda>_. []) (HRef 0) [Key (js ''items''), Idx 1] (HNumber (JFin 99)) heap_items
     = (HRef 3, heap_items_updated)
   \<and> take 3 heap_items_updated = heap_items
   \<and> lookup_off (\<lambda>_. []) heap_items (HRef 0) [Key (js ''items''), Idx 1] [Key (js ''meta'')] = Some (HRef 2)
   \<and> hlookup (\<lambda>_. []) heap_items_updated (HRef 3) [Key (js ''meta'')] = Some (HRef 2)
   \<and> hlookup (\<lambda>_. []) heap_items (HRef 0) [Key (js ''items'')] = Some (HRef 1)
   \<and> hlookup (\<lambda>_. []) heap_items_updated (HRef 3) [Key (js ''items'')] = Some (HRef 4)
   \<and> repr heap_items (HRef 0) doc_items_meta
   \<and> repr heap_items_updated (HRef 3)
        (updateJsonAtPath (\<lambda>_. []) doc_items_meta [Key (js ''items''), Idx 1] (num 99))"
proof -
  note t = C3_sharing_and_no_mutation[of "\<lambda>_. []" "HRef 0" "[Key (js ''items''), Idx 1]" "HNumber (JFin 99)"
        heap_items "HRef 3" heap_items_updated "[Key (js ''meta'')]" "HRef 2"
        doc_items_meta "num 99"]
  have o: "lookup_off (\<lambda>_. []) heap_items (HRef 0) [Key (js ''items''), Idx 1] [Key (js ''meta'')] = Some (HRef 2)"
    by (simp add: heap_items_def js_def)
  have v: "repr heap_items (HNumber (JFin 99)) (num 99)"
    by (simp add: num_def repr.repr_number)
  have "hlookup (\<lambda>_. []) heap_items_updated (HRef 3) [Key (js ''meta'')] = Some (HRef 2)"
    using t hupdate_items o by simp
  moreover have "repr heap_items_updated (HRef 3)
        (updateJsonAtPath (\<lambda>_. []) doc_items_meta [Key (js ''items''), Idx 1] (num 99))"
    using t hupdate_items repr_doc_items_meta v by blast
  moreover have "take 3 heap_items_updated = heap_items"
    by (simp add: heap_items_updated_def heap_items_def)
  moreover have "hlookup (\<lambda>_. []) heap_items (HRef 0) [Key (js ''items'')] = Some (HRef 1)"
    by (simp add: heap_items_def js_def)
  moreover have "hlookup (\<lambda>_. []) heap_items_updated (HRef 3) [Key (js ''items'')] = Some (HRef 4)"
    by (simp add: heap_items_updated_def heap_items_def js_def)
  ultimately show ?thesis using hupdate_items o repr_doc_items_meta by simp
qed

section \<open>Objects stay in enumeration order\<close>

text \<open>
  The model keeps an object as the list of its own properties in enumeration order and
  takes the spread of an object to be that same list. The lemmas below justify this: the
  canonical text of an array index determines the index; defining the properties of a
  list in enumeration order one after the other on a fresh object rebuilds the list;
  defining a property keeps the order; so what JSON.parse returns is in enumeration order,
  and \<open>updateJsonAtPath\<close> keeps documents so.
\<close>

lemma enumeration_order_distinct: "enumeration_order ks \<Longrightarrow> distinct ks"
  by (induction ks) auto

lemma not_has_own: "k \<notin> fst ` set es \<Longrightarrow> \<not> has_own es k"
  by (simp add: has_own_def map_of_eq_None_iff)

lemma has_own_iff: "has_own es k = (k \<in> fst ` set es)"
  by (auto simp: has_own_def map_of_eq_None_iff)

lemma obj_define_snoc:
  "enumeration_order (map fst es @ [k]) \<Longrightarrow> obj_define k v es = es @ [(k, v)]"
proof (induction es)
  case Nil
  then show ?case by (simp add: obj_define_def has_own_def split: option.splits)
next
  case (Cons e es)
  obtain k' v' where e: "e = (k', v')" by (cases e)
  from Cons.prems e have ne: "k' \<noteq> k" and lk: "later_ok k' k"
    and rest: "enumeration_order (map fst es @ [k])"
    by auto
  from enumeration_order_distinct[OF rest] have nin: "k \<notin> fst ` set es" by auto
  with ne e have no: "\<not> has_own (e # es) k" "\<not> has_own es k"
    by (auto simp: has_own_iff)
  from Cons.IH[OF rest] no(2) have ih:
    "(case array_index_of_key k of None \<Rightarrow> es @ [(k, v)] | Some n \<Rightarrow> obj_insert_index n k v es)
       = es @ [(k, v)]"
    by (simp add: obj_define_def)
  show ?case
  proof (cases "array_index_of_key k")
    case None
    with no(1) show ?thesis by (simp add: obj_define_def)
  next
    case (Some n)
    with lk obtain m where m: "array_index_of_key k' = Some m" "m < n"
      by (auto simp: later_ok_def split: option.splits)
    with Some no(1) ih e show ?thesis by (simp add: obj_define_def)
  qed
qed

lemma enumeration_order_prefix:
  "enumeration_order (xs @ ys) \<Longrightarrow> enumeration_order xs"
  by (induction xs) auto

lemma foldl_define_copy:
  "enumeration_order (map fst (acc @ es)) \<Longrightarrow>
   foldl (\<lambda>acc e. obj_define (fst e) (snd e) acc) acc es = acc @ es"
proof (induction es arbitrary: acc)
  case Nil
  then show ?case by simp
next
  case (Cons e es)
  have "enumeration_order ((map fst acc @ [fst e]) @ map fst es)" using Cons.prems by simp
  then have "enumeration_order (map fst acc @ [fst e])" by (rule enumeration_order_prefix)
  then have "obj_define (fst e) (snd e) acc = acc @ [e]"
    using obj_define_snoc[of acc "fst e" "snd e"] by simp
  moreover have "enumeration_order (map fst ((acc @ [e]) @ es))" using Cons.prems by simp
  ultimately show ?case using Cons.IH[of "acc @ [e]"] by simp
qed

lemma copy_props_id:
  "enumeration_order (map fst es) \<Longrightarrow> copy_props es = es"
  using foldl_define_copy[of "[]" es] by (simp add: copy_props_def)

lemma keys_obj_insert_index:
  "fst ` set (obj_insert_index n k v es) = insert k (fst ` set es)"
proof (induction es)
  case Nil
  then show ?case by simp
next
  case (Cons e es)
  obtain k' v' where e: "e = (k', v')" by (cases e)
  show ?case
  proof (cases "array_index_of_key k'")
    case None
    with e show ?thesis by simp
  next
    case (Some m)
    with e Cons.IH show ?thesis by (cases "m < n") auto
  qed
qed

lemma enumeration_order_insert_index:
  "enumeration_order (map fst es) \<Longrightarrow> k \<notin> fst ` set es \<Longrightarrow> array_index_of_key k = Some n \<Longrightarrow>
   enumeration_order (map fst (obj_insert_index n k v es))"
proof (induction es)
  case Nil
  then show ?case by simp
next
  case (Cons e es)
  obtain k' v' where e: "e = (k', v')" by (cases e)
  from Cons.prems e have ne: "k' \<noteq> k" and nin: "k \<notin> fst ` set es"
    and k'nin: "k' \<notin> fst ` set es" and lat: "list_all (later_ok k') (map fst es)"
    and ord: "enumeration_order (map fst es)"
    by (auto simp: image_iff)
  show ?case
  proof (cases "array_index_of_key k'")
    case None
    have "list_all (later_ok k) (map fst (e # es))"
      using lat None e Cons.prems(3)
      by (auto simp: later_ok_def list_all_iff split: option.splits)
    with Cons.prems e None show ?thesis by (auto simp: image_iff)
  next
    case (Some m)
    have mn: "m \<noteq> n" using Some Cons.prems(3) ne array_index_of_key_inj by blast
    show ?thesis
    proof (cases "m < n")
      case True
      have "later_ok k' k" using Some Cons.prems(3) True by (simp add: later_ok_def)
      with lat have "list_all (later_ok k') (map fst (obj_insert_index n k v es))"
        using keys_obj_insert_index[of n k v es] by (auto simp: list_all_iff)
      moreover have "k' \<notin> fst ` set (obj_insert_index n k v es)"
        using k'nin ne by (simp add: keys_obj_insert_index)
      ultimately show ?thesis
        using Cons.IH[OF ord nin Cons.prems(3)] e Some True by (simp add: image_iff)
    next
      case False
      with mn have nm: "n < m" by simp
      have "later_ok k k'" using Some Cons.prems(3) nm by (simp add: later_ok_def)
      moreover have "list_all (later_ok k) (map fst es)"
        using lat Some Cons.prems(3) nm
        by (auto simp: later_ok_def list_all_iff split: option.splits)
      ultimately show ?thesis
        using Cons.prems e Some False by (auto simp: image_iff)
    qed
  qed
qed

lemma enumeration_order_snoc:
  "enumeration_order ks \<Longrightarrow> k \<notin> set ks \<Longrightarrow> array_index_of_key k = None \<Longrightarrow>
   enumeration_order (ks @ [k])"
  by (induction ks) (auto simp: later_ok_def split: option.splits)

lemma enumeration_order_define:
  "enumeration_order (map fst es) \<Longrightarrow> enumeration_order (map fst (obj_define k v es))"
proof (cases "has_own es k")
  case True
  assume "enumeration_order (map fst es)"
  with True show ?thesis by (simp add: obj_define_def map_fst_obj_replace)
next
  case False
  assume o: "enumeration_order (map fst es)"
  from False have nin: "k \<notin> fst ` set es" by (simp add: has_own_iff)
  show ?thesis
  proof (cases "array_index_of_key k")
    case None
    from enumeration_order_snoc[OF o _ None] nin False None show ?thesis
      by (simp add: obj_define_def)
  next
    case (Some n)
    from enumeration_order_insert_index[OF o nin Some] False Some show ?thesis
      by (simp add: obj_define_def)
  qed
qed

lemma values_obj_replace:
  "list_all P (map snd es) \<Longrightarrow> P v \<Longrightarrow> list_all P (map snd (obj_replace k v es))"
  by (induction es) auto

lemma values_obj_insert_index:
  "list_all P (map snd es) \<Longrightarrow> P v \<Longrightarrow> list_all P (map snd (obj_insert_index n k v es))"
  by (induction es) (auto split: option.splits)

lemma values_obj_define:
  "list_all P (map snd es) \<Longrightarrow> P v \<Longrightarrow> list_all P (map snd (obj_define k v es))"
  by (auto simp: obj_define_def values_obj_replace values_obj_insert_index split: option.splits)

lemma well_ordered_object:
  "well_ordered (JObject es) = (enumeration_order (map fst es) \<and> list_all well_ordered (map snd es))"
  by (simp add: list_all_iff)

lemma well_ordered_define:
  "well_ordered (JObject es) \<Longrightarrow> well_ordered v \<Longrightarrow> well_ordered (JObject (obj_define k v es))"
  unfolding well_ordered_object
  by (simp add: enumeration_order_define values_obj_define)

lemma well_ordered_obj_set:
  "well_ordered (JObject es) \<Longrightarrow> well_ordered v \<Longrightarrow> well_ordered (JObject (obj_set es k v))"
  by (simp add: obj_set_def well_ordered_define del: well_ordered.simps)

lemma state_ok_stack: "state_ok (m, st) \<Longrightarrow> list_all frame_ok st"
  by (cases m) simp_all

lemma state_ok_Failed [simp]: "state_ok (Failed, [])"
  by simp

lemma deliver_ok:
  "well_ordered v \<Longrightarrow> list_all frame_ok st \<Longrightarrow> state_ok (deliver v st)"
proof (cases st)
  case Nil
  assume "well_ordered v" "list_all frame_ok st"
  with Nil show ?thesis by simp
next
  case (Cons f st')
  assume a: "well_ordered v" "list_all frame_ok st"
  show ?thesis
  proof (cases f)
    case (FArr xs)
    with a Cons show ?thesis by simp
  next
    case (FObj es)
    with a Cons show ?thesis by simp
  next
    case (FKey es k)
    with a Cons have "well_ordered (JObject es)" by simp
    from well_ordered_define[OF this a(1)] a Cons FKey show ?thesis by simp
  qed
qed

lemma value_token_ok:
  "list_all frame_ok st \<Longrightarrow> state_ok (value_token tok st)"
  by (cases tok) (simp_all add: deliver_ok)

lemma close_array_ok: "list_all frame_ok st \<Longrightarrow> state_ok (close_array st)"
  by (cases "(st)" rule: close_array.cases) (auto intro!: deliver_ok)

lemma close_object_ok: "list_all frame_ok st \<Longrightarrow> state_ok (close_object st)"
  by (cases "(st)" rule: close_object.cases) (auto intro!: deliver_ok simp del: well_ordered.simps(2))

lemma key_token_ok: "list_all frame_ok st \<Longrightarrow> state_ok (key_token tok st)"
  by (cases "(tok, st)" rule: key_token.cases) (auto simp del: well_ordered.simps(2))

lemma after_value_ok: "list_all frame_ok st \<Longrightarrow> state_ok (after_value tok st)"
  by (cases "(tok, st)" rule: after_value.cases)
     (auto intro!: deliver_ok simp del: well_ordered.simps(2))

lemma step_ok: "state_ok s \<Longrightarrow> state_ok (step s tok)"
proof -
  assume a: "state_ok s"
  obtain m st where s: "s = (m, st)" by (cases s)
  from a s have st: "list_all frame_ok st" by (simp add: state_ok_stack)
  show ?thesis unfolding s
    by (cases m)
       (simp_all add: st value_token_ok close_array_ok close_object_ok key_token_ok after_value_ok)
qed

lemma foldl_step_ok: "state_ok s \<Longrightarrow> state_ok (foldl step s toks)"
  by (induction toks arbitrary: s) (simp_all add: step_ok)

lemma JSON_parse_well_ordered:
  "JSON_parse text = Inr v \<Longrightarrow> well_ordered v"
proof -
  assume "JSON_parse text = Inr v"
  then obtain toks where "parse_tokens toks = Some v"
    by (auto simp: JSON_parse_def split: option.splits)
  then obtain st where f: "foldl step (WantValue, []) toks = (Finished v, st)"
    by (auto simp: parse_tokens_def split: prod.splits pmode.splits)
  have "state_ok (foldl step (WantValue, []) toks)" by (rule foldl_step_ok) simp
  with f show ?thesis by simp
qed

lemma nat_digits_nonempty: "nat_digits n \<noteq> []"
  by (subst nat_digits.simps) simp

lemma hd_nat_digits: "hd (nat_digits n) \<noteq> 0x30 \<or> length (nat_digits n) = 1"
proof (induction n rule: nat_digits.induct)
  case (1 n)
  show ?case
  proof (cases "n < 10")
    case True
    then show ?thesis by (subst (2) nat_digits.simps) simp
  next
    case False
    then have pos: "0 < n div 10" by simp
    from False 1 have ih: "hd (nat_digits (n div 10)) \<noteq> 0x30 \<or> length (nat_digits (n div 10)) = 1"
      by simp
    have "hd (nat_digits (n div 10)) \<noteq> 0x30"
    proof
      assume z: "hd (nat_digits (n div 10)) = 0x30"
      with ih have "length (nat_digits (n div 10)) = 1" by simp
      then obtain c where c: "nat_digits (n div 10) = [c]"
        by (cases "nat_digits (n div 10)") auto
      with z have "nat_digits (n div 10) = [0x30]" by simp
      then have "read_nat (nat_digits (n div 10)) = read_nat [0x30]" by simp
      moreover have "read_nat [0x30] = 0" by (simp add: read_nat_def digit_val_def)
      ultimately have "n div 10 = 0" by (simp only: read_nat_nat_digits)
      with pos show False by simp
    qed
    with False show ?thesis
      by (subst nat_digits.simps) (simp add: nat_digits_nonempty)
  qed
qed

lemma array_index_of_key_nat_digits:
  "array_index_of_key (nat_digits i) = (if i < 2 ^ 32 - 1 then Some i else None)"
proof -
  have "list_all is_digit (nat_digits i)"
    using nat_digits_are_digits[of i] by (simp add: list_all_iff is_digit_def)
  then show ?thesis
    using hd_nat_digits[of i]
    by (simp add: array_index_of_key_def nat_digits_nonempty read_nat_nat_digits)
qed

lemma nat_digits_inj: "nat_digits i = nat_digits j \<Longrightarrow> i = j"
  using read_nat_nat_digits by metis

lemma later_ok_nat_digits: "i < j \<Longrightarrow> later_ok (nat_digits i) (nat_digits j)"
  by (simp add: later_ok_def array_index_of_key_nat_digits)

lemma enumeration_order_map:
  "sorted_wrt (\<lambda>a b. f a \<noteq> f b \<and> later_ok (f a) (f b)) xs \<Longrightarrow> enumeration_order (map f xs)"
  by (induction xs) (auto simp: list_all_iff)

lemma enumeration_order_positions: "enumeration_order (map nat_digits [0..<n])"
proof (rule enumeration_order_map)
  have "sorted_wrt (<) [0..<n]" by simp
  then show "sorted_wrt (\<lambda>a b. nat_digits a \<noteq> nat_digits b \<and> later_ok (nat_digits a) (nat_digits b)) [0..<n]"
    by (rule sorted_wrt_mono_rel[rotated]) (auto simp: later_ok_nat_digits dest: nat_digits_inj)
qed

lemma well_ordered_spread:
  "well_ordered v \<Longrightarrow> well_ordered (JObject (spread_props v))"
proof (cases v)
  case (JString s)
  have "map fst (map (\<lambda>i. (nat_digits i, JString [s ! i])) [0..<length s])
          = map nat_digits [0..<length s]"
    by simp
  with enumeration_order_positions[of "length s"] JString show ?thesis
    by (simp add: list_all_iff o_def)
qed simp_all

lemma well_ordered_obj_get:
  "well_ordered (JObject es) \<Longrightarrow> well_ordered (obj_get es k)"
proof -
  assume a: "well_ordered (JObject es)"
  show ?thesis
  proof (cases "map_of es k")
    case None
    then show ?thesis by (simp add: obj_get_def)
  next
    case (Some v)
    then have "(k, v) \<in> set es" by (rule map_of_SomeD)
    with a have "well_ordered v" by (auto simp: list_all_iff)
    with Some show ?thesis by (simp add: obj_get_def)
  qed
qed

lemma well_ordered_array:
  "well_ordered (JArray xs ps) = (list_all well_ordered xs \<and> well_ordered (JObject ps))"
  by simp

lemma well_ordered_array_get:
  "well_ordered (JArray xs ps) \<Longrightarrow> well_ordered (array_get other xs ps seg)"
  unfolding well_ordered_array
  by (auto simp: array_get_def list_all_length well_ordered_obj_get
      simp del: well_ordered.simps(1,2) split: option.splits)

lemma well_ordered_array_set:
  assumes "well_ordered (JArray xs ps)" "well_ordered v"
  shows "well_ordered (JArray (fst (array_set JUndefined other xs ps seg v))
                              (snd (array_set JUndefined other xs ps seg v)))"
proof -
  from assms(1) have xs: "list_all well_ordered xs" and ps: "well_ordered (JObject ps)"
    by (simp_all only: well_ordered_array)
  show ?thesis
  proof (cases "element_index seg")
    case None
    with xs ps well_ordered_obj_set[OF ps assms(2)] show ?thesis
      unfolding well_ordered_array by (simp add: array_set_def del: well_ordered.simps(1,2))
  next
    case (Some i)
    have "list_all well_ordered (xs[i := v])"
      using xs assms(2) set_update_subset_insert[of xs i v] by (auto simp: list_all_iff)
    moreover have "list_all well_ordered (xs @ replicate (i - length xs) JUndefined @ [v])"
      using xs assms(2) by (auto simp: list_all_iff)
    ultimately show ?thesis
      using Some ps well_ordered_obj_set[OF ps assms(2)] unfolding well_ordered_array
      by (simp add: array_set_def del: well_ordered.simps(1,2))
  qed
qed

lemma updateJsonAtPath_well_ordered:
  "well_ordered json \<Longrightarrow> well_ordered v \<Longrightarrow> well_ordered (updateJsonAtPath other json path v)"
proof (induction path arbitrary: json)
  case Nil
  then show ?case by simp
next
  case (Cons first rest)
  show ?case
  proof (cases "\<exists>xs ps. json = JArray xs ps")
    case True
    then obtain xs ps where xs: "json = JArray xs ps" by blast
    with Cons.prems have all: "well_ordered (JArray xs [])" by simp
    have "well_ordered (updateJsonAtPath other (array_get other xs [] first) rest v)"
      by (rule Cons.IH[OF well_ordered_array_get[OF all] Cons.prems(2)])
    from well_ordered_array_set[OF all this, of other first] all show ?thesis
      unfolding xs updateJsonAtPath_array
      by (auto split: prod.splits simp del: well_ordered.simps(1))
  next
    case False
    then have no: "\<forall>xs ps. json \<noteq> JArray xs ps" by simp
    have sp: "well_ordered (JObject (spread_props json))"
      by (rule well_ordered_spread[OF Cons.prems(1)])
    have "well_ordered (updateJsonAtPath other (obj_get (spread_props json) (prop_key other first)) rest v)"
      by (rule Cons.IH[OF well_ordered_obj_get[OF sp] Cons.prems(2)])
    from well_ordered_obj_set[OF sp this] show ?thesis
      unfolding updateJsonAtPath_other[OF no] .
  qed
qed

lemma spread_is_copy:
  "well_ordered (JObject es) \<Longrightarrow> copy_props es = es"
  by (simp add: copy_props_id)

end
